theory Spec2Isabelle
  imports Main "HOL-Library.Sublist"
begin

section \<open>Python regular expressions, as the claim model uses them\<close>

text \<open>
  The claim model of \<open>src/models/corpus_models.py\<close> reads claim texts with the regular
  expressions of Python's \<open>re\<close> module. A text is a list of 8-bit characters, read as the
  code points 0 to 255. The patterns of the source use literals, the classes \<open>\d\<close>, \<open>\s\<close>,
  \<open>[\w-]\<close> and \<open>.\<close>, sequence, alternation, the greedy operators \<open>?\<close>, \<open>*\<close>, \<open>+\<close>
  and the anchor \<open>$\<close>.
\<close>

datatype cclass = Digit | Space | WordDash | AnyCh

datatype rx =
    Lit char
  | Cls cclass
  | Seq rx rx
  | Alt rx rx
  | Opt rx
  | Star rx
  | Eps
  | Eos

text \<open>
  The character classes on the code points below 256, as Python 3 decides them for a \<open>str\<close>
  pattern: \<open>\s\<close> and \<open>str.strip\<close> use \<open>str.isspace\<close>, \<open>\d\<close> the decimal digits, \<open>\w\<close> the
  alphanumeric characters and the underscore; \<open>.\<close> is every character but the line feed.
\<close>

definition py_isspace :: "char \<Rightarrow> bool" where
  "py_isspace c \<longleftrightarrow> c \<in> set [CHR 0x20, CHR 0x09, CHR 0x0A, CHR 0x0B, CHR 0x0C, CHR 0x0D,
                                 CHR 0x1C, CHR 0x1D, CHR 0x1E, CHR 0x1F, CHR 0x85, CHR 0xA0]"

definition py_isdigit :: "char \<Rightarrow> bool" where
  "py_isdigit c \<longleftrightarrow> c \<in> set ''0123456789''"

definition py_isword :: "char \<Rightarrow> bool" where
  "py_isword c \<longleftrightarrow> py_isdigit c \<or> c = CHR ''_''
     \<or> c \<in> set ''abcdefghijklmnopqrstuvwxyz''
     \<or> c \<in> set ''ABCDEFGHIJKLMNOPQRSTUVWXYZ''
     \<or> c \<in> set [CHR 0xAA, CHR 0xB2, CHR 0xB3, CHR 0xB5, CHR 0xB9, CHR 0xBA,
                  CHR 0xBC, CHR 0xBD, CHR 0xBE]
     \<or> (0xC0 \<le> (of_char c :: nat) \<and> (of_char c :: nat) \<noteq> 0xD7 \<and> (of_char c :: nat) \<noteq> 0xF7)"

fun in_class :: "cclass \<Rightarrow> char \<Rightarrow> bool" where
  "in_class Digit c = py_isdigit c"
| "in_class Space c = py_isspace c"
| "in_class WordDash c = (py_isword c \<or> c = CHR ''-'')"
| "in_class AnyCh c = (c \<noteq> CHR 0x0A)"

text \<open>
  \<open>rmatch r s\<close> lists what is left of \<open>s\<close> after each way of matching \<open>r\<close> at the start of
  \<open>s\<close>, in the order in which the backtracking matcher tries them: the left alternative
  before the right one, one more repetition before stopping. The head of the list is the match
  Python reports. \<open>Eos\<close> is \<open>$\<close>: the end of the text, or the position before a line
  feed that ends the text. The guard in the equation for \<open>Star\<close> drops a repetition that
  consumes nothing; no pattern of the source repeats a pattern that can match the empty
  string.
\<close>

function rmatch :: "rx \<Rightarrow> string \<Rightarrow> string list" where
  "rmatch (Lit c) s = (case s of [] \<Rightarrow> [] | x # xs \<Rightarrow> if x = c then [xs] else [])"
| "rmatch (Cls k) s = (case s of [] \<Rightarrow> [] | x # xs \<Rightarrow> if in_class k x then [xs] else [])"
| "rmatch (Seq a b) s = concat (map (rmatch b) (rmatch a s))"
| "rmatch (Alt a b) s = rmatch a s @ rmatch b s"
| "rmatch (Opt a) s = rmatch a s @ [s]"
| "rmatch (Star a) s =
     concat (map (\<lambda>s'. if length s' < length s then rmatch (Star a) s' else []) (rmatch a s))
     @ [s]"
| "rmatch Eps s = [s]"
| "rmatch Eos s = (if s = [] \<or> s = [CHR 0x0A] then [s] else [])"
  by pat_completeness auto
termination
  by (relation "measures [\<lambda>(r, s). size r, \<lambda>(r, s). length s]") auto

lemmas rmatch_Star = rmatch.simps(6)

declare rmatch.simps(6) [simp del]

definition Plus :: "rx \<Rightarrow> rx" where
  "Plus a = Seq a (Star a)"

fun Str :: "string \<Rightarrow> rx" where
  "Str [] = Eps"
| "Str [c] = Lit c"
| "Str (c # cs) = Seq (Lit c) (Str cs)"

fun seqs :: "rx list \<Rightarrow> rx" where
  "seqs [] = Eps"
| "seqs [a] = a"
| "seqs (a # as) = Seq a (seqs as)"

fun alts :: "rx \<Rightarrow> rx list \<Rightarrow> rx" where
  "alts a [] = a"
| "alts a (b # bs) = alts (Alt a b) bs"

text \<open>
  \<open>re.search\<close>: the leftmost offset at which the pattern matches, with the offsets of the
  start and the end of the match there. \<open>search_from r i s\<close> searches the rest \<open>s\<close> of a text
  that starts at offset \<open>i\<close>.
\<close>

fun search_from :: "rx \<Rightarrow> nat \<Rightarrow> string \<Rightarrow> (nat \<times> nat) option" where
  "search_from r i s =
     (case rmatch r s of
        rest # _ \<Rightarrow> Some (i, i + (length s - length rest))
      | [] \<Rightarrow> (case s of [] \<Rightarrow> None | _ # s' \<Rightarrow> search_from r (Suc i) s'))"

declare search_from.simps [simp del]

definition re_search :: "rx \<Rightarrow> string \<Rightarrow> (nat \<times> nat) option" where
  "re_search r s = search_from r 0 s"

text \<open>
  \<open>re.finditer\<close>: the matches from left to right, each search starting where the previous
  match ended. After an empty match the scan moves on by one character.
\<close>

function finditer_from :: "rx \<Rightarrow> nat \<Rightarrow> string \<Rightarrow> (nat \<times> nat) list" where
  "finditer_from r i s =
     (case search_from r i s of
        None \<Rightarrow> []
      | Some (a, b) \<Rightarrow>
          (a, b) # (let n = (if a < b then b else Suc b)
                    in if i < n \<and> n - i \<le> length s
                       then finditer_from r n (drop (n - i) s) else []))"
  by pat_completeness auto
termination
  by (relation "measure (\<lambda>(r, i, s). length s)") auto

declare finditer_from.simps [simp del]

definition re_finditer :: "rx \<Rightarrow> string \<Rightarrow> (nat \<times> nat) list" where
  "re_finditer r s = finditer_from r 0 s"

text \<open>
  The slice \<open>s[a:b]\<close> for offsets that are not negative, \<open>str.strip()\<close>, and \<open>int\<close> applied
  to a string of decimal digits.
\<close>

definition py_slice :: "'a list \<Rightarrow> nat \<Rightarrow> nat \<Rightarrow> 'a list" where
  "py_slice s a b = take (b - a) (drop a s)"

definition py_strip :: "string \<Rightarrow> string" where
  "py_strip s = rev (dropWhile py_isspace (rev (dropWhile py_isspace s)))"

definition digit_val :: "char \<Rightarrow> int" where
  "digit_val c = int (of_char c) - 48"

definition py_int :: "string \<Rightarrow> int" where
  "py_int ds = foldl (\<lambda>acc c. 10 * acc + digit_val c) 0 ds"

section \<open>Feature segmentation\<close>

record feature =
  startindex :: nat
  endindex :: nat
  ftext :: string

text \<open>
  \<open>Claim.split_into_features\<close> (corpus_models.py, lines 211 to 232). The pattern is
  \<open>(;\s*(and)?)|(,.?(and)?\n)|(:\s*)|(\.\s*$)\<close>. The loop appends, for each match, the
  segment from the end of the previous match (0 at first) to the end of this match. A feature is
  the dictionary with the keys \<open>startindex\<close>, \<open>endindex\<close> and \<open>text\<close>.
\<close>

definition split_expression :: rx where
  "split_expression =
     alts (seqs [Lit CHR '';'', Star (Cls Space), Opt (Str ''and'')])
       [seqs [Lit CHR '','', Opt (Cls AnyCh), Opt (Str ''and''), Lit CHR 0x0A],
        seqs [Lit CHR '':'', Star (Cls Space)],
        seqs [Lit CHR ''.'', Star (Cls Space), Eos]]"

fun features_loop :: "string \<Rightarrow> nat \<Rightarrow> (nat \<times> nat) list \<Rightarrow> feature list" where
  "features_loop txt st [] = []"
| "features_loop txt st ((a, b) # ms) =
     \<lparr>startindex = st, endindex = b, ftext = py_slice txt st b\<rparr> # features_loop txt b ms"

definition split_into_features :: "string \<Rightarrow> feature list" where
  "split_into_features txt = features_loop txt 0 (re_finditer split_expression txt)"


section \<open>Claim number, category and dependency\<close>

datatype py_error = AttributeError | KeyError

text \<open>
  \<open>Claim.get_number\<close> (lines 147 to 158): the pattern is \<open>\d+\.\<close>; the number is the match
  without its last character, the new text is what follows the match, stripped.
\<close>

definition number_re :: rx where
  "number_re = seqs [Plus (Cls Digit), Lit CHR ''.'']"

definition get_number :: "string \<Rightarrow> int option \<times> string" where
  "get_number txt =
     (case re_search number_re txt of
        Some (a, b) \<Rightarrow> (Some (py_int (butlast (py_slice txt a b))), py_strip (drop b txt))
      | None \<Rightarrow> (None, txt))"

text \<open>
  \<open>Claim.detect_category\<close> (lines 160 to 168), with the pattern
  \<open>(A|An|The)\s([\w-]+\s)*(method|process)\s(of|for)?\<close>.
\<close>

definition category_re :: rx where
  "category_re =
     seqs [alts (Str ''A'') [Str ''An'', Str ''The''], Cls Space,
           Star (seqs [Plus (Cls WordDash), Cls Space]),
           alts (Str ''method'') [Str ''process''], Cls Space,
           Opt (alts (Str ''of'') [Str ''for''])]"

definition detect_category :: "string \<Rightarrow> string" where
  "detect_category txt =
     (case re_search category_re txt of Some _ \<Rightarrow> ''method'' | None \<Rightarrow> ''system'')"

text \<open>
  \<open>Claim.detect_dependency\<close> (lines 193 to 209). The first pattern is
  \<open>(of|to|with|in)?\s(C|c)laims?\s\d+((\sto\s\d+)|(\sor\s(C|c)laim\s\d+))?(,\swherein)?\<close>;
  the dependency is the first match of \<open>\d+\<close> inside its match. The second pattern is
  \<open>\s(preceding|previous)\s(C|c)laims?(,\swherein)?\<close>. Calling \<open>group\<close> on a failed search
  raises \<open>AttributeError\<close>.
\<close>

definition dependency_re :: rx where
  "dependency_re =
     seqs [Opt (alts (Str ''of'') [Str ''to'', Str ''with'', Str ''in'']), Cls Space,
           alts (Lit CHR ''C'') [Lit CHR ''c''], Str ''laim'', Opt (Lit CHR ''s''), Cls Space,
           Plus (Cls Digit),
           Opt (alts (seqs [Cls Space, Str ''to'', Cls Space, Plus (Cls Digit)])
                     [seqs [Cls Space, Str ''or'', Cls Space,
                            alts (Lit CHR ''C'') [Lit CHR ''c''], Str ''laim'', Cls Space,
                            Plus (Cls Digit)]]),
           Opt (seqs [Lit CHR '','', Cls Space, Str ''wherein''])]"

definition num_re :: rx where
  "num_re = Plus (Cls Digit)"

definition preceding_re :: rx where
  "preceding_re =
     seqs [Cls Space, alts (Str ''preceding'') [Str ''previous''], Cls Space,
           alts (Lit CHR ''C'') [Lit CHR ''c''], Str ''laim'', Opt (Lit CHR ''s''),
           Opt (seqs [Lit CHR '','', Cls Space, Str ''wherein''])]"

definition detect_dependency :: "string \<Rightarrow> py_error + int" where
  "detect_dependency txt =
     (case re_search dependency_re txt of
        Some (a, b) \<Rightarrow>
          (let grp = py_slice txt a b in
           case re_search num_re grp of
             Some (c, d) \<Rightarrow> Inr (py_int (py_slice grp c d))
           | None \<Rightarrow> Inl AttributeError)
      | None \<Rightarrow>
          (case re_search preceding_re txt of
             Some _ \<Rightarrow> Inr 1
           | None \<Rightarrow> Inr 0))"

section \<open>Part-of-speech tagging\<close>

type_synonym tagged = "string \<times> string"

text \<open>
  The tagger \<open>nltk.pos_tag\<close> is a parameter. \<open>Claim.get_pos\<close> (corpus_models.py, lines 141
  to 145) returns its answer for the words of the claim; the call of \<open>get_words\<close> before it
  discards its result. \<open>BaseTextBlock.set_pos\<close> (basemodels.py, lines 93 to 102) replaces the
  tag of every word \<open>comprising\<close> by \<open>VBG\<close>.
\<close>

definition get_pos :: "(string list \<Rightarrow> tagged list) \<Rightarrow> string list \<Rightarrow> tagged list" where
  "get_pos pos_tag ws = pos_tag ws"

definition set_pos :: "(string list \<Rightarrow> tagged list) \<Rightarrow> string list \<Rightarrow> tagged list" where
  "set_pos pos_tag ws =
     map (\<lambda>(word, pos). if word \<noteq> ''comprising'' then (word, pos) else (''comprising'', ''VBG''))
         (pos_tag ws)"

section \<open>Noun-phrase chunks and their identities\<close>

text \<open>
  \<open>Claim.label_nounphrases\<close> (corpus_models.py, lines 234 to 277). The chunk parser
  \<open>cp.parse\<close> is a parameter, and so is the suffix test \<open>utils.ends_with\<close>. The grammar has
  the single stage \<open>NP\<close>, so the children of the parse tree are tagged tokens and \<open>NP\<close>
  chunks of tagged tokens. The canonical string of a chunk joins the words whose tag differs
  from the value of \<open>("DT" or "PRP$")\<close>. The mapping is a dictionary in insertion order, an
  association list here; \<open>pos_to_np\<close> maps the index of a chunk among the children to its
  identifier. In the flat list the empty marker \<open>""\<close> is \<open>None\<close>.
\<close>

datatype node = Leaf tagged | NP "tagged list"

fun leaves :: "node \<Rightarrow> tagged list" where
  "leaves (Leaf x) = [x]"
| "leaves (NP ls) = ls"

definition py_or :: "string \<Rightarrow> string \<Rightarrow> string" where
  "py_or a b = (if a \<noteq> [] then a else b)"

fun py_join :: "string \<Rightarrow> string list \<Rightarrow> string" where
  "py_join sep [] = []"
| "py_join sep [x] = x"
| "py_join sep (x # xs) = x @ sep @ py_join sep xs"

definition np_string_of :: "tagged list \<Rightarrow> string" where
  "np_string_of ls = py_join '' '' (map fst (filter (\<lambda>leaf. snd leaf \<noteq> py_or ''DT'' ''PRP$'') ls))"

fun np_subtrees :: "nat \<Rightarrow> node list \<Rightarrow> (nat \<times> tagged list) list" where
  "np_subtrees i [] = []"
| "np_subtrees i (Leaf x # ns) = np_subtrees (Suc i) ns"
| "np_subtrees i (NP ls # ns) = (i, ls) # np_subtrees (Suc i) ns"

type_synonym mapping = "(string \<times> nat) list"

definition dict_get :: "mapping \<Rightarrow> string \<Rightarrow> nat option" where
  "dict_get m k = map_of m k"

definition falsy :: "nat option \<Rightarrow> bool" where
  "falsy v = (case v of None \<Rightarrow> True | Some n \<Rightarrow> n = 0)"

definition resolve_np ::
  "(string \<Rightarrow> string \<Rightarrow> bool) \<Rightarrow> mapping \<Rightarrow> string \<Rightarrow> py_error + (nat \<times> mapping)" where
  "resolve_np ew mapping_dict np_string =
     (let np_id = dict_get mapping_dict np_string in
      if falsy np_id then
        (let nps = map fst mapping_dict;
             ends_with_list = filter (\<lambda>np. ew np_string np) nps
         in if ends_with_list \<noteq> [] then
              (case dict_get mapping_dict (hd ends_with_list) of
                 Some v \<Rightarrow> Inr (v, mapping_dict)
               | None \<Rightarrow> Inl KeyError)
            else Inr (length mapping_dict + 1,
                      mapping_dict @ [(np_string, length mapping_dict + 1)]))
      else (case np_id of Some v \<Rightarrow> Inr (v, mapping_dict) | None \<Rightarrow> Inl KeyError))"

fun resolve_loop ::
  "(string \<Rightarrow> string \<Rightarrow> bool) \<Rightarrow> (nat \<times> tagged list) list \<Rightarrow> mapping \<Rightarrow> (nat \<rightharpoonup> nat)
     \<Rightarrow> py_error + (mapping \<times> (nat \<rightharpoonup> nat))" where
  "resolve_loop ew [] mapping_dict pos_to_np = Inr (mapping_dict, pos_to_np)"
| "resolve_loop ew ((i, st) # sts) mapping_dict pos_to_np =
     (case resolve_np ew mapping_dict (np_string_of st) of
        Inl e \<Rightarrow> Inl e
      | Inr (np_id, mapping_dict') \<Rightarrow>
          resolve_loop ew sts mapping_dict' (pos_to_np(i \<mapsto> np_id)))"

fun flat_loop :: "nat \<Rightarrow> node list \<Rightarrow> (nat \<rightharpoonup> nat) \<Rightarrow> (string \<times> string \<times> nat option) list" where
  "flat_loop i [] pos_to_np = []"
| "flat_loop i (NP ls # ns) pos_to_np =
     map (\<lambda>leaf. (fst leaf, snd leaf, pos_to_np i)) ls @ flat_loop (Suc i) ns pos_to_np"
| "flat_loop i (Leaf x # ns) pos_to_np =
     (fst x, snd x, pos_to_np i) # flat_loop (Suc i) ns pos_to_np"

definition label_nounphrases ::
  "(string \<Rightarrow> string \<Rightarrow> bool) \<Rightarrow> (tagged list \<Rightarrow> node list) \<Rightarrow> tagged list
     \<Rightarrow> py_error + ((string \<times> string \<times> nat option) list \<times> mapping)" where
  "label_nounphrases ew cp_parse pos =
     (let ptree = cp_parse pos in
      case resolve_loop ew (np_subtrees 0 ptree) [] Map.empty of
        Inl e \<Rightarrow> Inl e
      | Inr (mapping_dict, pos_to_np) \<Rightarrow> Inr (flat_loop 0 ptree pos_to_np, mapping_dict))"

text \<open>
  Modelled from the spec: \<open>utils.ends_with\<close>, the helper that \<open>label_nounphrases\<close> calls
  as \<open>utils.ends_with(np_string, np)\<close>, is not among the sources. The specification calls it
  a word-boundary-aware "ends with": the new string is a suffix of the existing key, and the
  suffix starts at the beginning of a word of the key.
\<close>

fun after_space :: "string \<Rightarrow> string \<Rightarrow> bool" where
  "after_space s [] = False"
| "after_space s (c # k) = ((c = CHR '' '' \<and> s = k) \<or> after_space s k)"

definition ends_with :: "string \<Rightarrow> string \<Rightarrow> bool" where
  "ends_with s1 s2 \<longleftrightarrow> s1 = s2 \<or> after_space s1 s2"

subsection \<open>The chunk grammar\<close>

text \<open>
  A model of \<open>nltk.RegexpParser\<close> for the grammar of the source,
  \<open>NP: {<DT|PRP\$> <VBG> <NN.*>+} {<DT|PRP\$> <NN.*> <POS> <JJ>* <NN.*>+}
  {<DT|PRP\$>? <JJ>* <NN.*>+}\<close>. The three rules are applied one after the other over the
  whole sequence; each takes the leftmost longest matches among the tokens that are in no chunk
  yet. A rule returns the number of tokens it matches at the start of a run of such tokens.
\<close>

definition is_det :: "tagged \<Rightarrow> bool" where
  "is_det x \<longleftrightarrow> snd x = ''DT'' \<or> snd x = ''PRP$''"

definition is_nn :: "tagged \<Rightarrow> bool" where
  "is_nn x \<longleftrightarrow> take 2 (snd x) = ''NN'' \<and> (\<forall>c \<in> set (drop 2 (snd x)). c \<notin> set ''{}<>'')"

definition is_jj :: "tagged \<Rightarrow> bool" where
  "is_jj x \<longleftrightarrow> snd x = ''JJ''"

definition rule1 :: "tagged list \<Rightarrow> nat option" where
  "rule1 xs =
     (case xs of
        d # v # rest \<Rightarrow>
          if is_det d \<and> snd v = ''VBG'' \<and> takeWhile is_nn rest \<noteq> []
          then Some (2 + length (takeWhile is_nn rest)) else None
      | _ \<Rightarrow> None)"

definition rule2 :: "tagged list \<Rightarrow> nat option" where
  "rule2 xs =
     (case xs of
        d # n # p # rest \<Rightarrow>
          (let js = takeWhile is_jj rest; ns = takeWhile is_nn (dropWhile is_jj rest)
           in if is_det d \<and> is_nn n \<and> snd p = ''POS'' \<and> ns \<noteq> []
              then Some (3 + length js + length ns) else None)
      | _ \<Rightarrow> None)"

definition rule3 :: "tagged list \<Rightarrow> nat option" where
  "rule3 xs =
     (let d = (case xs of x # _ \<Rightarrow> if is_det x then 1 else 0 | [] \<Rightarrow> 0);
          ys = drop d xs;
          js = takeWhile is_jj ys;
          ns = takeWhile is_nn (dropWhile is_jj ys)
      in if ns \<noteq> [] then Some (d + length js + length ns) else None)"

fun leaf_run :: "node list \<Rightarrow> tagged list" where
  "leaf_run (Leaf x # ns) = x # leaf_run ns"
| "leaf_run _ = []"

function chunk_rule :: "(tagged list \<Rightarrow> nat option) \<Rightarrow> node list \<Rightarrow> node list" where
  "chunk_rule m [] = []"
| "chunk_rule m (NP ls # ns) = NP ls # chunk_rule m ns"
| "chunk_rule m (Leaf x # ns) =
     (case m (leaf_run (Leaf x # ns)) of
        None \<Rightarrow> Leaf x # chunk_rule m ns
      | Some k \<Rightarrow>
          if 0 < k then NP (take k (leaf_run (Leaf x # ns))) # chunk_rule m (drop k (Leaf x # ns))
          else Leaf x # chunk_rule m ns)"
  by pat_completeness auto
termination
  by (relation "measure (\<lambda>(m, ns). length ns)") auto

definition regexp_parse :: "tagged list \<Rightarrow> node list" where
  "regexp_parse pos = chunk_rule rule3 (chunk_rule rule2 (chunk_rule rule1 (map Leaf pos)))"

section \<open>The claim object\<close>

text \<open>
  \<open>Claim.__init__\<close> (lines 101 to 135). The tokenizer \<open>nltk.word_tokenize\<close> is a parameter,
  as are the tagger, the chunk parser and the suffix test. The supplied number and dependency
  are optional; the constructor tests them for truth, so \<open>None\<close> and 0 take the parsed value.
  The result is the claim object and the warnings printed.
\<close>

record claim =
  ctext :: string
  number :: "int option"
  category :: string
  dependency :: int
  words :: "string list"
  pos :: "tagged list"
  word_data :: "(string \<times> string \<times> nat option) list"
  mapping_dict :: mapping
  features :: "feature list"

definition init ::
  "(string \<Rightarrow> string list) \<Rightarrow> (string list \<Rightarrow> tagged list) \<Rightarrow> (tagged list \<Rightarrow> node list)
     \<Rightarrow> (string \<Rightarrow> string \<Rightarrow> bool)
     \<Rightarrow> string \<Rightarrow> int option \<Rightarrow> int option \<Rightarrow> py_error + (claim \<times> string list)" where
  "init word_tokenize pos_tag cp_parse ew txt number_arg dependency_arg =
     (let (parsed_number, txt') = get_number txt;
          (num, out1) =
            (case number_arg of
               Some n \<Rightarrow>
                 if n \<noteq> 0
                 then (Some n,
                       if Some n \<noteq> parsed_number
                       then [''Warning: detected claim number does not equal passed claim number.'']
                       else [])
                 else (parsed_number, [])
             | None \<Rightarrow> (parsed_number, []));
          cat = detect_category txt'
      in case detect_dependency txt' of
           Inl e \<Rightarrow> Inl e
         | Inr parsed_dependency \<Rightarrow>
             (let (dep, out2) =
                    (case dependency_arg of
                       Some d \<Rightarrow>
                         if d \<noteq> 0
                         then (d,
                               if d \<noteq> parsed_dependency
                               then [''Warning: detected dependency does not equal passed dependency.'']
                               else [])
                         else (parsed_dependency, [])
                     | None \<Rightarrow> (parsed_dependency, []));
                  ws = word_tokenize txt';
                  ps = get_pos pos_tag ws
              in case label_nounphrases ew cp_parse ps of
                   Inl e \<Rightarrow> Inl e
                 | Inr (wd, md) \<Rightarrow>
                     Inr (\<lparr>ctext = txt', number = num, category = cat, dependency = dep,
                            words = ws, pos = ps, word_data = wd, mapping_dict = md,
                            features = split_into_features txt'\<rparr>,
                          out1 @ out2)))"

section \<open>Auxiliary notions for the proofs\<close>

text \<open>
  \<open>asc lo hi ms\<close>: the end offsets of the matches \<open>ms\<close> do not decrease, starting from
  \<open>lo\<close>, and stay below or at \<open>hi\<close>. \<open>last_end st ms\<close> is the end of the last match, or
  \<open>st\<close> when there is none. A mapping is valid when its values are 1, 2, ... in insertion order
  and its keys are distinct; \<open>first_seen\<close> says that no key is a suffix match of an earlier key.
  \<open>resolved_id\<close> reads the identifier of a canonical string off a mapping: that of the key
  equal to it, or else that of the first key it is a suffix match of. \<open>label_node\<close> is the
  flat list of one child of the parse tree.
\<close>

fun asc :: "nat \<Rightarrow> nat \<Rightarrow> (nat \<times> nat) list \<Rightarrow> bool" where
  "asc lo hi [] = True"
| "asc lo hi ((a, b) # ms) = (lo \<le> b \<and> b \<le> hi \<and> asc b hi ms)"

fun last_end :: "nat \<Rightarrow> (nat \<times> nat) list \<Rightarrow> nat" where
  "last_end st [] = st"
| "last_end st ((a, b) # ms) = last_end b ms"

definition valid_mapping :: "mapping \<Rightarrow> bool" where
  "valid_mapping m \<longleftrightarrow> map snd m = [1..<Suc (length m)] \<and> distinct (map fst m)"

definition first_seen :: "(string \<Rightarrow> string \<Rightarrow> bool) \<Rightarrow> mapping \<Rightarrow> bool" where
  "first_seen ew m \<longleftrightarrow> (\<forall>j < length m. \<forall>k \<in> set (take j (map fst m)). \<not> ew (fst (m ! j)) k)"

definition resolved_id :: "(string \<Rightarrow> string \<Rightarrow> bool) \<Rightarrow> mapping \<Rightarrow> string \<Rightarrow> nat option" where
  "resolved_id ew m s =
     (case map_of m s of
        Some v \<Rightarrow> Some v
      | None \<Rightarrow> (case filter (ew s) (map fst m) of [] \<Rightarrow> None | k # _ \<Rightarrow> map_of m k))"

fun label_node :: "(tagged list \<Rightarrow> nat option) \<Rightarrow> node \<Rightarrow> (string \<times> string \<times> nat option) list" where
  "label_node f (Leaf x) = [(fst x, snd x, None)]"
| "label_node f (NP ls) = map (\<lambda>x. (fst x, snd x, f ls)) ls"

text \<open>The decimal numeral of a natural number, as a claim number is written in a claim text.\<close>

definition digit_char :: "nat \<Rightarrow> char" where
  "digit_char k = ''0123456789'' ! k"

function decimal :: "nat \<Rightarrow> string" where
  "decimal n = (if n < 10 then [digit_char n] else decimal (n div 10) @ [digit_char (n mod 10)])"
  by pat_completeness auto
termination
  by (relation "measure id") auto

declare decimal.simps [simp del]

section \<open>Properties of the regular-expression model\<close>

lemma rmatch_suffix: "r \<in> set (rmatch rx s) \<Longrightarrow> suffix r s"
proof (induction rx s arbitrary: r rule: rmatch.induct)
  case (1 c s)
  then show ?case by (cases s) (auto split: if_splits simp: suffix_Cons)
next
  case (2 k s)
  then show ?case by (cases s) (auto split: if_splits simp: suffix_Cons)
next
  case (3 a b s)
  from "3.prems" obtain s' where s': "s' \<in> set (rmatch a s)" and r: "r \<in> set (rmatch b s')"
    by auto
  from "3.IH"(1)[OF s'] "3.IH"(2)[OF s' r] show ?case
    by (rule suffix_order.trans[rotated])
next
  case (4 a b s)
  then show ?case by auto
next
  case (5 a s)
  then show ?case by auto
next
  case (6 a s)
  from "6.prems"
  have "r \<in> set (concat (map (\<lambda>s'. if length s' < length s then rmatch (Star a) s' else [])
                               (rmatch a s)) @ [s])"
    by (subst (asm) rmatch_Star)
  then consider "r = s"
    | s' where "s' \<in> set (rmatch a s)" "length s' < length s" "r \<in> set (rmatch (Star a) s')"
    by (auto split: if_splits)
  then show ?case
  proof cases
    case 1
    then show ?thesis by simp
  next
    case (2 s')
    from "6.IH"(1)[OF 2(1)] "6.IH"(2)[OF 2(1) 2(2) 2(3)] show ?thesis
      by (rule suffix_order.trans[rotated])
  qed
next
  case (7 s)
  then show ?case by (auto split: if_splits)
next
  case (8 s)
  then show ?case by (auto split: if_splits)
qed

lemma rmatch_length: "r \<in> set (rmatch rx s) \<Longrightarrow> length r \<le> length s"
  by (drule rmatch_suffix) (rule suffix_length_le)

lemma search_from_bounds:
  "search_from r i s = Some (a, b) \<Longrightarrow> i \<le> a \<and> a \<le> b \<and> b \<le> i + length s"
proof (induction s arbitrary: i)
  case Nil
  then show ?case by (auto simp: search_from.simps[of r i "[]"] split: list.splits)
next
  case (Cons x xs)
  show ?case
  proof (cases "rmatch r (x # xs)")
    case Nil
    with Cons.prems have "search_from r (Suc i) xs = Some (a, b)"
      by (simp add: search_from.simps[of r i "x # xs"])
    from Cons.IH[OF this] show ?thesis by simp
  next
    case (Cons rest rs)
    then have "length rest \<le> length (x # xs)"
      using rmatch_length[of rest r "x # xs"] by simp
    with Cons Cons.prems show ?thesis
      by (auto simp: search_from.simps[of r i "x # xs"])
  qed
qed

lemma asc_weaken: "asc lo hi ms \<Longrightarrow> lo' \<le> lo \<Longrightarrow> asc lo' hi ms"
  by (cases ms) auto

lemma finditer_from_asc: "asc i (i + length s) (finditer_from r i s)"
proof (induction r i s rule: finditer_from.induct)
  case (1 r i s)
  show ?case
  proof (cases "search_from r i s")
    case None
    then show ?thesis by (subst finditer_from.simps) simp
  next
    case (Some ab)
    obtain a b where ab: "ab = (a, b)" by (cases ab)
    define n where "n = (if a < b then b else Suc b)"
    from search_from_bounds[of r i s a b] Some ab
    have bnd: "i \<le> a" "a \<le> b" "b \<le> i + length s" by auto
    show ?thesis
    proof (cases "i < n \<and> n - i \<le> length s")
      case True
      have eq: "n + length (drop (n - i) s) = i + length s" using True by auto
      have "asc n (n + length (drop (n - i) s)) (finditer_from r n (drop (n - i) s))"
        by (rule "1.IH"[OF Some ab[symmetric] n_def True])
      then have A: "asc n (i + length s) (finditer_from r n (drop (n - i) s))"
        unfolding eq .
      have "b \<le> n" by (simp add: n_def)
      from asc_weaken[OF A this]
      have B: "asc b (i + length s) (finditer_from r n (drop (n - i) s))" .
      have "finditer_from r i s = (a, b) # finditer_from r n (drop (n - i) s)"
        using Some ab True by (subst finditer_from.simps) (simp add: n_def Let_def)
      with B bnd show ?thesis by simp
    next
      case False
      have "finditer_from r i s = [(a, b)]"
        using Some ab False[unfolded n_def]
        by (subst finditer_from.simps) (auto simp: Let_def split: if_splits)
      with bnd show ?thesis by simp
    qed
  qed
qed


text \<open>
  No alternative of the delimiter pattern matches the empty string, so the branch of
  \<open>finditer_from\<close> for an empty match is never taken by \<open>split_into_features\<close>.
\<close>

lemma split_expression_nonempty:
  assumes "r \<in> set (rmatch split_expression s)"
  shows "length r < length s"
proof -
  have lit: "length r' < length s'" if "r' \<in> set (rmatch (Seq (Lit c) x) s')" for r' c x s'
  proof -
    from that obtain t where t: "s' = c # t" and "r' \<in> set (rmatch x t)"
      by (cases s') (auto split: if_splits)
    from rmatch_length[OF this(2)] t show ?thesis by simp
  qed
  obtain c1 x1 c2 x2 c3 x3 c4 x4 where eq:
    "split_expression = Alt (Alt (Alt (Seq (Lit c1) x1) (Seq (Lit c2) x2)) (Seq (Lit c3) x3))
                            (Seq (Lit c4) x4)"
    by (simp add: split_expression_def)
  from assms have "r \<in> set (rmatch (Seq (Lit c1) x1) s @ rmatch (Seq (Lit c2) x2) s
      @ rmatch (Seq (Lit c3) x3) s @ rmatch (Seq (Lit c4) x4) s)"
    unfolding eq rmatch.simps(4) by simp
  then have "r \<in> set (rmatch (Seq (Lit c1) x1) s) \<or> r \<in> set (rmatch (Seq (Lit c2) x2) s)
      \<or> r \<in> set (rmatch (Seq (Lit c3) x3) s) \<or> r \<in> set (rmatch (Seq (Lit c4) x4) s)"
    unfolding set_append Un_iff by blast
  then show ?thesis by (elim disjE) (rule lit, assumption)+
qed

lemma last_end_last: "last_end st ms = (if ms = [] then st else snd (last ms))"
  by (induction st ms rule: last_end.induct) auto

lemma asc_last_end: "asc st hi ms \<Longrightarrow> st \<le> last_end st ms"
  by (induction st ms rule: last_end.induct) auto

lemma py_slice_append:
  "a \<le> b \<Longrightarrow> b \<le> c \<Longrightarrow> py_slice s a b @ py_slice s b c = py_slice s a c"
proof -
  assume ab: "a \<le> b" and bc: "b \<le> c"
  have "take (c - a) (drop a s) = take ((b - a) + (c - b)) (drop a s)"
    using ab bc by simp
  also have "\<dots> = take (b - a) (drop a s) @ take (c - b) (drop (b - a) (drop a s))"
    by (rule take_add)
  also have "drop (b - a) (drop a s) = drop b s"
    using ab by simp
  finally show ?thesis by (simp add: py_slice_def)
qed

lemma features_loop_concat:
  "asc st hi ms \<Longrightarrow>
   concat (map ftext (features_loop tx st ms)) = py_slice tx st (last_end st ms)"
proof (induction tx st ms rule: features_loop.induct)
  case (1 tx st)
  then show ?case by (simp add: py_slice_def)
next
  case (2 tx st a b ms)
  then have "asc b hi ms" and sb: "st \<le> b" by simp_all
  from asc_last_end[OF this(1)] have be: "b \<le> last_end b ms" .
  from "2.IH"[OF \<open>asc b hi ms\<close>] py_slice_append[OF sb be] show ?case by simp
qed

lemma features_loop_hd:
  "features_loop tx st ms \<noteq> [] \<Longrightarrow> startindex (hd (features_loop tx st ms)) = st"
  by (cases ms) auto

lemma features_loop_nth:
  "Suc k < length (features_loop tx st ms) \<Longrightarrow>
   startindex (features_loop tx st ms ! Suc k) = endindex (features_loop tx st ms ! k)"
proof (induction tx st ms arbitrary: k rule: features_loop.induct)
  case (1 tx st)
  then show ?case by simp
next
  case (2 tx st a b ms)
  show ?case
  proof (cases k)
    case 0
    with "2.prems" have ne: "features_loop tx b ms \<noteq> []" by auto
    from features_loop_hd[OF ne] ne 0 show ?thesis by (simp add: hd_conv_nth)
  next
    case (Suc j)
    with "2.prems" "2.IH"[of j] show ?thesis by simp
  qed
qed

lemma features_loop_ends: "map endindex (features_loop tx st ms) = map snd ms"
  by (induction tx st ms rule: features_loop.induct) auto

lemma features_loop_slices:
  "f \<in> set (features_loop tx st ms) \<Longrightarrow> ftext f = py_slice tx (startindex f) (endindex f)"
  by (induction tx st ms rule: features_loop.induct) auto

text \<open>
  Claim C10. The segments of \<open>split_into_features\<close> are contiguous among themselves: the
  first starts at offset 0, every later one starts where its predecessor ends, the end offsets
  are the end offsets of the delimiter matches, and the segment texts concatenate to the prefix
  of the claim text that ends at the last delimiter match (the empty prefix when there is no
  match). Text after the last match is in no segment.
\<close>

theorem split_into_features_contiguous:
  "(split_into_features tx \<noteq> [] \<longrightarrow> startindex (hd (split_into_features tx)) = 0) \<and>
   (\<forall>k. Suc k < length (split_into_features tx) \<longrightarrow>
        startindex (split_into_features tx ! Suc k) = endindex (split_into_features tx ! k)) \<and>
   map endindex (split_into_features tx) = map snd (re_finditer split_expression tx) \<and>
   concat (map ftext (split_into_features tx)) =
     take (if re_finditer split_expression tx = [] then 0
           else snd (last (re_finditer split_expression tx))) tx"
proof -
  let ?ms = "re_finditer split_expression tx"
  have a: "asc 0 (0 + length tx) ?ms"
    unfolding re_finditer_def by (rule finditer_from_asc)
  have "concat (map ftext (split_into_features tx)) = py_slice tx 0 (last_end 0 ?ms)"
    unfolding split_into_features_def by (rule features_loop_concat[OF a])
  then have c: "concat (map ftext (split_into_features tx)) =
     take (if ?ms = [] then 0 else snd (last ?ms)) tx"
    by (simp add: py_slice_def last_end_last)
  show ?thesis
    using c features_loop_hd[of tx 0 ?ms] features_loop_nth[of _ tx 0 ?ms]
      features_loop_ends[of tx 0 ?ms]
    by (simp add: split_into_features_def)
qed

theorem split_into_features_contiguous_witness:
  "split_into_features ''a: b; and c.'' \<noteq> [] \<and>
   startindex (hd (split_into_features ''a: b; and c.'')) = 0 \<and>
   Suc 0 < length (split_into_features ''a: b; and c.'') \<and>
   startindex (split_into_features ''a: b; and c.'' ! Suc 0)
     = endindex (split_into_features ''a: b; and c.'' ! 0) \<and>
   concat (map ftext (split_into_features ''a: b; and c.'')) = ''a: b; and c.''"
proof -
  have fs: "split_into_features ''a: b; and c.'' =
      [\<lparr>startindex = 0, endindex = 3, ftext = ''a: ''\<rparr>,
       \<lparr>startindex = 3, endindex = 9, ftext = ''b; and''\<rparr>,
       \<lparr>startindex = 9, endindex = 12, ftext = '' c.''\<rparr>]"
    by code_simp
  show ?thesis
    using split_into_features_contiguous[of "''a: b; and c.''"] by (simp add: fs)
qed

text \<open>
  Claim C3, as stated, fails: in \<open>a;b\<close> the only delimiter match is the semicolon, so the
  single segment is \<open>a;\<close> and the trailing \<open>b\<close> is lost.
\<close>

theorem split_into_features_roundtrip_counterexample:
  "concat (map ftext (split_into_features ''a;b'')) \<noteq> ''a;b''"
  by code_simp

text \<open>
  Claim C3, amended. For every claim text whose last delimiter match ends at the end of the text
  (or which is empty), concatenating the segment texts in order reproduces the text exactly,
  and the segment offsets partition it from 0 to its length without gaps or overlaps.
\<close>

theorem split_into_features_roundtrip:
  assumes "(if re_finditer split_expression tx = [] then 0
            else snd (last (re_finditer split_expression tx))) = length tx"
  shows "concat (map ftext (split_into_features tx)) = tx \<and>
         (split_into_features tx \<noteq> [] \<longrightarrow>
            startindex (hd (split_into_features tx)) = 0 \<and>
            endindex (last (split_into_features tx)) = length tx) \<and>
         (\<forall>k. Suc k < length (split_into_features tx) \<longrightarrow>
            startindex (split_into_features tx ! Suc k) = endindex (split_into_features tx ! k))"
proof -
  let ?ms = "re_finditer split_expression tx"
  have a: "asc 0 (0 + length tx) ?ms"
    unfolding re_finditer_def by (rule finditer_from_asc)
  have "concat (map ftext (split_into_features tx)) = py_slice tx 0 (last_end 0 ?ms)"
    unfolding split_into_features_def by (rule features_loop_concat[OF a])
  with assms have c: "concat (map ftext (split_into_features tx)) = tx"
    by (simp add: py_slice_def last_end_last)
  have e: "map endindex (split_into_features tx) = map snd ?ms"
    by (simp add: split_into_features_def features_loop_ends)
  have l: "split_into_features tx \<noteq> [] \<Longrightarrow> endindex (last (split_into_features tx)) = length tx"
  proof -
    assume ne: "split_into_features tx \<noteq> []"
    with e have ms: "?ms \<noteq> []" by auto
    from ne have "endindex (last (split_into_features tx)) = last (map endindex (split_into_features tx))"
      by (simp add: last_map)
    also have "\<dots> = snd (last ?ms)" using ms by (simp add: e last_map)
    finally show ?thesis using assms ms by simp
  qed
  show ?thesis
    using c l features_loop_hd[of tx 0 ?ms] features_loop_nth[of _ tx 0 ?ms]
    by (simp add: split_into_features_def)
qed


theorem split_into_features_roundtrip_witness:
  "(if re_finditer split_expression ''a: b; and c.'' = [] then 0
    else snd (last (re_finditer split_expression ''a: b; and c.''))) = length ''a: b; and c.'' \<and>
   concat (map ftext (split_into_features ''a: b; and c.'')) = ''a: b; and c.'' \<and>
   split_into_features ''a: b; and c.'' \<noteq> [] \<and>
   endindex (last (split_into_features ''a: b; and c.'')) = length ''a: b; and c.''"
proof -
  have h: "(if re_finditer split_expression ''a: b; and c.'' = [] then 0
    else snd (last (re_finditer split_expression ''a: b; and c.''))) = length ''a: b; and c.''"
    by code_simp
  have ne: "split_into_features ''a: b; and c.'' \<noteq> []"
    by code_simp
  from split_into_features_roundtrip[OF h] h ne show ?thesis by simp
qed

section \<open>Noun-phrase identity resolution\<close>

lemma valid_mapping_pos: "valid_mapping m \<Longrightarrow> map_of m k = Some v \<Longrightarrow> 1 \<le> v \<and> v \<le> length m"
proof -
  assume vm: "valid_mapping m" and "map_of m k = Some v"
  then have "v \<in> set (map snd m)" by (force dest: map_of_SomeD)
  moreover from vm have "set (map snd m) = set [1..<Suc (length m)]"
    by (simp only: valid_mapping_def)
  ultimately have "v \<in> set [1..<Suc (length m)]" by simp
  then show ?thesis by (simp del: upt_Suc)
qed

lemma valid_mapping_falsy: "valid_mapping m \<Longrightarrow> falsy (dict_get m s) \<longleftrightarrow> map_of m s = None"
  using valid_mapping_pos[of m s] by (auto simp: falsy_def dict_get_def split: option.splits)

lemma map_of_key: "k \<in> set (map fst m) \<Longrightarrow> \<exists>v. map_of m k = Some v"
  by (cases "map_of m k") (auto simp: map_of_eq_None_iff)

lemma valid_mapping_snoc:
  "valid_mapping m \<Longrightarrow> map_of m s = None \<Longrightarrow> valid_mapping (m @ [(s, length m + 1)])"
  by (auto simp: valid_mapping_def map_of_eq_None_iff)

lemma first_seen_snoc:
  assumes "first_seen ew m" and "filter (ew s) (map fst m) = []"
  shows "first_seen ew (m @ [(s, n)])"
  unfolding first_seen_def
proof (intro allI impI ballI)
  fix j k
  assume j: "j < length (m @ [(s, n)])" and k: "k \<in> set (take j (map fst (m @ [(s, n)])))"
  show "\<not> ew (fst ((m @ [(s, n)]) ! j)) k"
  proof (cases "j < length m")
    case True
    with k have "k \<in> set (take j (map fst m))" by simp
    with assms(1) True show ?thesis by (simp add: first_seen_def nth_append)
  next
    case False
    with j have jl: "j = length m" by simp
    with k have "k \<in> set (map fst m)" by simp
    with assms(2) have "\<not> ew s k" by (auto simp: filter_empty_conv)
    with jl show ?thesis by simp
  qed
qed

lemma resolve_np_step:
  assumes vm: "valid_mapping m"
  shows "\<exists>v m'. resolve_np ew m s = Inr (v, m') \<and> valid_mapping m' \<and>
           resolved_id ew m' s = Some v \<and>
           (m' = m \<or> (m' = m @ [(s, length m + 1)] \<and> resolved_id ew m s = None
                       \<and> filter (ew s) (map fst m) = []))"
proof (cases "map_of m s")
  case (Some v)
  with vm have "\<not> falsy (dict_get m s)" by (simp add: valid_mapping_falsy)
  with Some have "resolve_np ew m s = Inr (v, m)"
    by (simp add: resolve_np_def dict_get_def)
  with Some vm show ?thesis by (simp add: resolved_id_def)
next
  case None
  with vm have f: "falsy (dict_get m s)" by (simp add: valid_mapping_falsy)
  show ?thesis
  proof (cases "filter (ew s) (map fst m)")
    case Nil
    with f have "resolve_np ew m s = Inr (length m + 1, m @ [(s, length m + 1)])"
      by (simp add: resolve_np_def Let_def)
    moreover have "resolved_id ew (m @ [(s, length m + 1)]) s = Some (length m + 1)"
      using None by (simp add: resolved_id_def map_add_def)
    moreover have "resolved_id ew m s = None" using None Nil by (simp add: resolved_id_def)
    ultimately show ?thesis using valid_mapping_snoc[OF vm None] Nil by simp
  next
    case (Cons k ks)
    then have "k \<in> set (filter (ew s) (map fst m))" by simp
    then have "k \<in> set (map fst m)" by simp
    from map_of_key[OF this] obtain v where v: "map_of m k = Some v" ..
    with f Cons have "resolve_np ew m s = Inr (v, m)"
      by (simp add: resolve_np_def Let_def dict_get_def)
    moreover have "resolved_id ew m s = Some v" using None Cons v by (simp add: resolved_id_def)
    ultimately show ?thesis using vm by simp
  qed
qed

lemma resolved_id_stable:
  assumes "resolved_id ew m s = Some v" and "resolved_id ew m s' = None"
  shows "resolved_id ew (m @ [(s', n)]) s = Some v"
proof -
  from assms have ne: "s \<noteq> s'" by auto
  show ?thesis
  proof (cases "map_of m s")
    case (Some w)
    with assms(1) show ?thesis by (simp add: resolved_id_def map_add_def)
  next
    case None
    with assms(1) obtain k ks where f: "filter (ew s) (map fst m) = k # ks"
      and k: "map_of m k = Some v"
      by (auto simp: resolved_id_def split: list.splits)
    from k have a: "map_of (m @ [(s', n)]) k = Some v" by (simp add: map_add_def)
    have b: "map_of (m @ [(s', n)]) s = None" using None ne by (simp add: map_add_def)
    have c: "filter (ew s) (map fst (m @ [(s', n)])) = k # (ks @ filter (ew s) [s'])"
      using f by simp
    show ?thesis unfolding resolved_id_def b c using a by simp
  qed
qed


lemma resolve_loop_result:
  assumes "valid_mapping m" and "first_seen ew m" and "distinct (map fst sts)"
  shows "\<exists>m' p'. resolve_loop ew sts m p = Inr (m', p') \<and> valid_mapping m' \<and> first_seen ew m' \<and>
           (\<forall>s v. resolved_id ew m s = Some v \<longrightarrow> resolved_id ew m' s = Some v) \<and>
           set (map fst m') \<subseteq> set (map fst m) \<union> np_string_of ` snd ` set sts \<and>
           (\<forall>(i, st) \<in> set sts. \<exists>v. p' i = Some v \<and> resolved_id ew m' (np_string_of st) = Some v) \<and>
           (\<forall>i. i \<notin> fst ` set sts \<longrightarrow> p' i = p i)"
  using assms
proof (induction sts arbitrary: m p)
  case Nil
  then show ?case by simp
next
  case (Cons x sts)
  obtain i st where x: "x = (i, st)" by (cases x)
  let ?s = "np_string_of st"
  from resolve_np_step[OF Cons.prems(1), of ew ?s]
  obtain v m1 where r: "resolve_np ew m ?s = Inr (v, m1)" and vm1: "valid_mapping m1"
    and id1: "resolved_id ew m1 ?s = Some v"
    and m1: "m1 = m \<or> (m1 = m @ [(?s, length m + 1)] \<and> resolved_id ew m ?s = None
                       \<and> filter (ew ?s) (map fst m) = [])"
    by blast
  from m1 Cons.prems(2) have fs1: "first_seen ew m1"
    by (auto intro: first_seen_snoc)
  from m1 have mono1: "\<And>s w. resolved_id ew m s = Some w \<Longrightarrow> resolved_id ew m1 s = Some w"
    by (auto intro: resolved_id_stable)
  from m1 have keys1: "set (map fst m1) \<subseteq> set (map fst m) \<union> {?s}" by auto
  from Cons.prems(3) x have d: "distinct (map fst sts)" and ni: "i \<notin> fst ` set sts" by auto
  from Cons.IH[OF vm1 fs1 d, of "p(i \<mapsto> v)"]
  obtain m' p' where res: "resolve_loop ew sts m1 (p(i \<mapsto> v)) = Inr (m', p')"
    and vm': "valid_mapping m'" and fs': "first_seen ew m'"
    and mono': "\<forall>s w. resolved_id ew m1 s = Some w \<longrightarrow> resolved_id ew m' s = Some w"
    and keys': "set (map fst m') \<subseteq> set (map fst m1) \<union> np_string_of ` snd ` set sts"
    and ids': "\<forall>(j, st') \<in> set sts. \<exists>v. p' j = Some v \<and> resolved_id ew m' (np_string_of st') = Some v"
    and out': "\<forall>j. j \<notin> fst ` set sts \<longrightarrow> p' j = (p(i \<mapsto> v)) j"
    by blast
  have loop: "resolve_loop ew (x # sts) m p = Inr (m', p')"
    using r res x by simp
  from out' ni have pi: "p' i = Some v" by simp
  from mono' id1 have "resolved_id ew m' ?s = Some v" by blast
  with pi have here: "\<exists>v. p' i = Some v \<and> resolved_id ew m' ?s = Some v" by simp
  have keys: "set (map fst m') \<subseteq> set (map fst m) \<union> np_string_of ` snd ` set (x # sts)"
    using keys' keys1 x by auto
  have mono: "\<forall>s w. resolved_id ew m s = Some w \<longrightarrow> resolved_id ew m' s = Some w"
    using mono1 mono' by blast
  have out: "\<forall>j. j \<notin> fst ` set (x # sts) \<longrightarrow> p' j = p j"
    using out' x by auto
  have ids: "\<forall>(j, st') \<in> set (x # sts). \<exists>v. p' j = Some v \<and> resolved_id ew m' (np_string_of st') = Some v"
    unfolding x using ids' here by simp
  from loop vm' fs' mono keys ids out show ?case by blast
qed

lemma np_subtrees_ge: "(k, ls) \<in> set (np_subtrees i ns) \<Longrightarrow> i \<le> k"
  by (induction i ns rule: np_subtrees.induct) auto

lemma np_subtrees_distinct: "distinct (map fst (np_subtrees i ns))"
  by (induction i ns rule: np_subtrees.induct) (auto dest: np_subtrees_ge)

lemma np_subtrees_snd: "snd ` set (np_subtrees i ns) = {ls. NP ls \<in> set ns}"
  by (induction i ns rule: np_subtrees.induct) auto

lemma flat_loop_label:
  assumes "\<forall>(k, ls) \<in> set (np_subtrees i ns). p k = f ls"
    and "\<forall>k \<ge> i. k \<notin> fst ` set (np_subtrees i ns) \<longrightarrow> p k = None"
  shows "flat_loop i ns p = concat (map (label_node f) ns)"
  using assms
proof (induction i ns rule: np_subtrees.induct)
  case (1 i)
  then show ?case by simp
next
  case (2 i x ns)
  have "i \<notin> fst ` set (np_subtrees (Suc i) ns)"
    by (auto dest: np_subtrees_ge)
  with "2.prems" have "p i = None" by simp
  moreover have "flat_loop (Suc i) ns p = concat (map (label_node f) ns)"
    using "2.prems" by (intro "2.IH") auto
  ultimately show ?case by simp
next
  case (3 i ls ns)
  from "3.prems"(1) have here: "p i = f ls" by simp
  have "flat_loop (Suc i) ns p = concat (map (label_node f) ns)"
    using "3.prems" by (intro "3.IH") auto
  with here show ?case by simp
qed

lemma flat_loop_tokens:
  "map (\<lambda>(w, t, i). (w, t)) (flat_loop i ns p) = concat (map leaves ns)"
  by (induction i ns p rule: flat_loop.induct) (auto simp: comp_def)


lemma label_nounphrases_result:
  "\<exists>wd md. label_nounphrases ew cp ps = Inr (wd, md) \<and> valid_mapping md \<and> first_seen ew md \<and>
     set (map fst md) \<subseteq> {np_string_of ls |ls. NP ls \<in> set (cp ps)} \<and>
     wd = concat (map (label_node (\<lambda>ls. resolved_id ew md (np_string_of ls))) (cp ps)) \<and>
     (\<forall>ls. NP ls \<in> set (cp ps) \<longrightarrow> resolved_id ew md (np_string_of ls) \<noteq> None)"
proof -
  let ?sts = "np_subtrees 0 (cp ps)"
  have v0: "valid_mapping []" by (simp add: valid_mapping_def)
  have f0: "first_seen ew []" by (simp add: first_seen_def)
  from resolve_loop_result[OF v0 f0 np_subtrees_distinct[of 0 "cp ps"], where p = Map.empty]
  obtain md p' where res: "resolve_loop ew ?sts [] Map.empty = Inr (md, p')"
    and vm: "valid_mapping md" and fs: "first_seen ew md"
    and keys: "set (map fst md) \<subseteq> set (map fst ([]::mapping)) \<union> np_string_of ` snd ` set ?sts"
    and ids: "\<forall>(i, st) \<in> set ?sts. \<exists>v. p' i = Some v \<and> resolved_id ew md (np_string_of st) = Some v"
    and out: "\<forall>i. i \<notin> fst ` set ?sts \<longrightarrow> p' i = Map.empty i"
    by blast
  let ?f = "\<lambda>ls. resolved_id ew md (np_string_of ls)"
  have fl: "flat_loop 0 (cp ps) p' = concat (map (label_node ?f) (cp ps))"
  proof (rule flat_loop_label)
    show "\<forall>(k, ls) \<in> set ?sts. p' k = ?f ls" using ids by auto
    show "\<forall>k \<ge> 0. k \<notin> fst ` set ?sts \<longrightarrow> p' k = None" using out by simp
  qed
  have ln: "label_nounphrases ew cp ps = Inr (flat_loop 0 (cp ps) p', md)"
    using res by (simp add: label_nounphrases_def)
  have k: "set (map fst md) \<subseteq> {np_string_of ls |ls. NP ls \<in> set (cp ps)}"
    using keys by (auto simp: np_subtrees_snd)
  have nn: "\<forall>ls. NP ls \<in> set (cp ps) \<longrightarrow> ?f ls \<noteq> None"
  proof (intro allI impI)
    fix ls assume "NP ls \<in> set (cp ps)"
    then have "ls \<in> snd ` set ?sts" by (simp add: np_subtrees_snd)
    then obtain i where "(i, ls) \<in> set ?sts" by auto
    with ids show "?f ls \<noteq> None" by fastforce
  qed
  from ln vm fs k fl nn show ?thesis by simp
qed

subsection \<open>The chunk grammar keeps the tokens\<close>

lemma leaf_run_take:
  "k \<le> length (leaf_run ns) \<Longrightarrow> concat (map leaves (take k ns)) = take k (leaf_run ns)"
proof (induction ns arbitrary: k)
  case Nil
  then show ?case by simp
next
  case (Cons n ns)
  show ?case
  proof (cases n)
    case (Leaf x)
    with Cons show ?thesis by (cases k) auto
  next
    case (NP ls)
    with Cons.prems show ?thesis by simp
  qed
qed

lemma chunk_rule_leaves:
  assumes "\<And>xs k. m xs = Some k \<Longrightarrow> k \<le> length xs"
  shows "concat (map leaves (chunk_rule m ns)) = concat (map leaves ns)"
  using assms
proof (induction m ns rule: chunk_rule.induct)
  case (1 m)
  then show ?case by simp
next
  case (2 m ls ns)
  then show ?case by simp
next
  case (3 m x ns)
  show ?case
  proof (cases "m (leaf_run (Leaf x # ns))")
    case None
    with "3.IH"(1)[OF None "3.prems"] show ?thesis by simp
  next
    case (Some k)
    show ?thesis
    proof (cases "0 < k")
      case True
      from "3.prems"[OF Some] have kl: "k \<le> length (leaf_run (Leaf x # ns))" .
      have "concat (map leaves (Leaf x # ns))
          = concat (map leaves (take k (Leaf x # ns))) @ concat (map leaves (drop k (Leaf x # ns)))"
        by (metis append_take_drop_id concat_append map_append)
      also have "\<dots> = take k (leaf_run (Leaf x # ns)) @ concat (map leaves (drop k (Leaf x # ns)))"
        using leaf_run_take[OF kl] by simp
      finally show ?thesis
        using Some True "3.IH"(2)[OF Some True "3.prems"] by simp
    next
      case False
      with Some "3.IH"(3)[OF Some False "3.prems"] show ?thesis by simp
    qed
  qed
qed

lemma takeWhile_two:
  "length (takeWhile P xs) + length (takeWhile Q (dropWhile P xs)) \<le> length xs"
proof -
  have "length (takeWhile Q (dropWhile P xs)) \<le> length (dropWhile P xs)"
    by (rule length_takeWhile_le)
  moreover have "length (takeWhile P xs) + length (dropWhile P xs) = length xs"
    by (metis length_append takeWhile_dropWhile_id)
  ultimately show ?thesis by simp
qed

lemma rule1_bound: "rule1 xs = Some k \<Longrightarrow> k \<le> length xs"
  using length_takeWhile_le[of is_nn]
  by (auto simp: rule1_def split: list.splits if_splits)

lemma rule2_bound: "rule2 xs = Some k \<Longrightarrow> k \<le> length xs"
  using takeWhile_two[of is_jj _ is_nn]
  by (auto simp: rule2_def Let_def split: list.splits if_splits)

lemma rule3_bound: "rule3 xs = Some k \<Longrightarrow> k \<le> length xs"
proof -
  assume a: "rule3 xs = Some k"
  define d :: nat where "d = (case xs of x # _ \<Rightarrow> if is_det x then 1 else 0 | [] \<Rightarrow> 0)"
  have dl: "d \<le> length xs" by (auto simp: d_def split: list.splits)
  from a have "k = d + length (takeWhile is_jj (drop d xs))
                 + length (takeWhile is_nn (dropWhile is_jj (drop d xs)))"
    by (auto simp: rule3_def Let_def d_def split: if_splits)
  with takeWhile_two[of is_jj "drop d xs" is_nn] dl show ?thesis by simp
qed

lemma regexp_parse_leaves: "concat (map leaves (regexp_parse ps)) = ps"
proof -
  have "concat (map leaves (map Leaf ps)) = ps" by (induction ps) auto
  then show ?thesis
    by (simp add: regexp_parse_def chunk_rule_leaves rule1_bound rule2_bound rule3_bound)
qed

text \<open>
  Claim C8. Whenever the chunk parser keeps the tagged tokens (the leaves of its result, read
  left to right, are the input sequence), \<open>label_nounphrases\<close> returns without raising, and
  the flat list of triples carries every input token with its tag exactly once and in the
  original order. Every token of a noun-phrase chunk carries the identifier resolved for the
  canonical string of that chunk in the returned mapping, every other token the empty marker.
\<close>

theorem label_nounphrases_tokens:
  assumes "concat (map leaves (cp ps)) = ps"
  shows "\<exists>wd md. label_nounphrases ew cp ps = Inr (wd, md) \<and>
           map (\<lambda>(w, t, i). (w, t)) wd = ps \<and>
           wd = concat (map (label_node (\<lambda>ls. resolved_id ew md (np_string_of ls))) (cp ps)) \<and>
           (\<forall>ls. NP ls \<in> set (cp ps) \<longrightarrow> resolved_id ew md (np_string_of ls) \<noteq> None)"
proof -
  from label_nounphrases_result[of ew cp ps]
  obtain wd md where ln: "label_nounphrases ew cp ps = Inr (wd, md)"
    and wd: "wd = concat (map (label_node (\<lambda>ls. resolved_id ew md (np_string_of ls))) (cp ps))"
    and nn: "\<forall>ls. NP ls \<in> set (cp ps) \<longrightarrow> resolved_id ew md (np_string_of ls) \<noteq> None"
    by blast
  from ln obtain p' where "wd = flat_loop 0 (cp ps) p'"
    by (auto simp: label_nounphrases_def Let_def split: sum.splits)
  then have "map (\<lambda>(w, t, i). (w, t)) wd = concat (map leaves (cp ps))"
    by (simp add: flat_loop_tokens)
  with assms ln wd nn show ?thesis by simp
qed

theorem label_nounphrases_tokens_witness:
  "concat (map leaves (regexp_parse
      [(''the'', ''DT''), (''control'', ''NN''), (''device'', ''NN''), (''drives'', ''VBZ''),
       (''the'', ''DT''), (''device'', ''NN'')]))
    = [(''the'', ''DT''), (''control'', ''NN''), (''device'', ''NN''), (''drives'', ''VBZ''),
       (''the'', ''DT''), (''device'', ''NN'')] \<and>
   (\<exists>wd md. label_nounphrases ends_with regexp_parse
      [(''the'', ''DT''), (''control'', ''NN''), (''device'', ''NN''), (''drives'', ''VBZ''),
       (''the'', ''DT''), (''device'', ''NN'')] = Inr (wd, md) \<and>
      map (\<lambda>(w, t, i). (w, t)) wd =
        [(''the'', ''DT''), (''control'', ''NN''), (''device'', ''NN''), (''drives'', ''VBZ''),
         (''the'', ''DT''), (''device'', ''NN'')])"
proof -
  have h: "concat (map leaves (regexp_parse
      [(''the'', ''DT''), (''control'', ''NN''), (''device'', ''NN''), (''drives'', ''VBZ''),
       (''the'', ''DT''), (''device'', ''NN'')]))
    = [(''the'', ''DT''), (''control'', ''NN''), (''device'', ''NN''), (''drives'', ''VBZ''),
       (''the'', ''DT''), (''device'', ''NN'')]"
    by (rule regexp_parse_leaves)
  from label_nounphrases_tokens[where cp = regexp_parse and ew = ends_with, OF h]
  obtain wd md where "label_nounphrases ends_with regexp_parse
      [(''the'', ''DT''), (''control'', ''NN''), (''device'', ''NN''), (''drives'', ''VBZ''),
       (''the'', ''DT''), (''device'', ''NN'')] = Inr (wd, md)"
    and "map (\<lambda>(w, t, i). (w, t)) wd =
        [(''the'', ''DT''), (''control'', ''NN''), (''device'', ''NN''), (''drives'', ''VBZ''),
         (''the'', ''DT''), (''device'', ''NN'')]"
    by (elim exE conjE) (rule that; assumption)
  then have "\<exists>wd md. label_nounphrases ends_with regexp_parse
      [(''the'', ''DT''), (''control'', ''NN''), (''device'', ''NN''), (''drives'', ''VBZ''),
       (''the'', ''DT''), (''device'', ''NN'')] = Inr (wd, md) \<and>
      map (\<lambda>(w, t, i). (w, t)) wd =
        [(''the'', ''DT''), (''control'', ''NN''), (''device'', ''NN''), (''drives'', ''VBZ''),
         (''the'', ''DT''), (''device'', ''NN'')]"
    by (intro exI conjI)
  with h show ?thesis by (rule conjI)
qed

text \<open>
  Claim C9. \<open>label_nounphrases\<close> returns a mapping whose values are \<open>1, ..., n\<close> in insertion
  order (so they are pairwise distinct and form exactly the set from 1 to the size of the
  mapping), whose keys are pairwise distinct canonical strings of chunks, and in which no key
  is a suffix match of an earlier key. A mention resolved by suffix match takes the identifier
  of an existing key and leaves the mapping as it is.
\<close>

theorem label_nounphrases_mapping:
  "\<exists>wd md. label_nounphrases ew cp ps = Inr (wd, md) \<and>
     map snd md = [1..<Suc (length md)] \<and>
     distinct (map snd md) \<and> set (map snd md) = {1..length md} \<and>
     distinct (map fst md) \<and>
     set (map fst md) \<subseteq> {np_string_of ls |ls. NP ls \<in> set (cp ps)} \<and>
     first_seen ew md \<and>
     (\<forall>m s. falsy (dict_get m s) \<and> filter (ew s) (map fst m) \<noteq> [] \<longrightarrow>
        (\<exists>v \<in> set (map snd m). resolve_np ew m s = Inr (v, m)))"
proof -
  from label_nounphrases_result[of ew cp ps]
  obtain wd md where ln: "label_nounphrases ew cp ps = Inr (wd, md)"
    and vm: "valid_mapping md" and fs: "first_seen ew md"
    and keys: "set (map fst md) \<subseteq> {np_string_of ls |ls. NP ls \<in> set (cp ps)}"
    by blast
  from vm have vals: "map snd md = [1..<Suc (length md)]" and dk: "distinct (map fst md)"
    by (simp_all add: valid_mapping_def)
  have dv: "distinct (map snd md)" unfolding vals by (rule distinct_upt)
  have sv: "set (map snd md) = {1..length md}" unfolding vals by (auto simp del: upt_Suc)
  have step: "\<forall>m s. falsy (dict_get m s) \<and> filter (ew s) (map fst m) \<noteq> [] \<longrightarrow>
        (\<exists>v \<in> set (map snd m). resolve_np ew m s = Inr (v, m))"
  proof (intro allI impI, elim conjE)
    fix m :: mapping and s
    assume f: "falsy (dict_get m s)" and ne: "filter (ew s) (map fst m) \<noteq> []"
    then have "hd (filter (ew s) (map fst m)) \<in> set (filter (ew s) (map fst m))"
      by (intro hd_in_set)
    moreover have "set (filter (ew s) (map fst m)) \<subseteq> set (map fst m)"
      by (rule filter_is_subset)
    ultimately have "hd (filter (ew s) (map fst m)) \<in> set (map fst m)" by blast
    from map_of_key[OF this] obtain v where v: "map_of m (hd (filter (ew s) (map fst m))) = Some v" ..
    then have "v \<in> set (map snd m)" by (force dest: map_of_SomeD)
    moreover from f ne v have "resolve_np ew m s = Inr (v, m)"
      by (simp add: resolve_np_def Let_def dict_get_def)
    ultimately show "\<exists>v \<in> set (map snd m). resolve_np ew m s = Inr (v, m)" by blast
  qed
  from ln vals dv sv dk keys fs step show ?thesis by blast
qed


theorem label_nounphrases_mapping_witness:
  "(\<exists>wd md. label_nounphrases ends_with regexp_parse
       [(''the'', ''DT''), (''control'', ''NN''), (''device'', ''NN''), (''drives'', ''VBZ''),
        (''the'', ''DT''), (''device'', ''NN'')] = Inr (wd, md) \<and>
       map snd md = [1..<Suc (length md)] \<and> distinct (map fst md)) \<and>
   falsy (dict_get [(''control device'', 1)] ''device'') \<and>
   filter (ends_with ''device'') (map fst [(''control device'', 1::nat)]) \<noteq> [] \<and>
   (\<exists>v \<in> set (map snd [(''control device'', 1::nat)]).
      resolve_np ends_with [(''control device'', 1)] ''device'' = Inr (v, [(''control device'', 1)]))"
proof -
  let ?P = "[(''the'', ''DT''), (''control'', ''NN''), (''device'', ''NN''), (''drives'', ''VBZ''),
        (''the'', ''DT''), (''device'', ''NN'')]"
  let ?m = "[(''control device'', 1::nat)]"
  from label_nounphrases_mapping[of ends_with regexp_parse ?P]
  obtain wd md where ln: "label_nounphrases ends_with regexp_parse ?P = Inr (wd, md)"
    and vals: "map snd md = [1..<Suc (length md)]" and dk: "distinct (map fst md)"
    and step: "\<forall>m s. falsy (dict_get m s) \<and> filter (ends_with s) (map fst m) \<noteq> [] \<longrightarrow>
        (\<exists>v \<in> set (map snd m). resolve_np ends_with m s = Inr (v, m))"
    by blast
  have f: "falsy (dict_get ?m ''device'')"
    by (simp add: falsy_def dict_get_def)
  have e: "filter (ends_with ''device'') (map fst ?m) \<noteq> []"
    by (simp add: ends_with_def)
  from step f e have r: "\<exists>v \<in> set (map snd ?m). resolve_np ends_with ?m ''device'' = Inr (v, ?m)"
    by blast
  from ln vals dk have "\<exists>wd md. label_nounphrases ends_with regexp_parse ?P = Inr (wd, md) \<and>
       map snd md = [1..<Suc (length md)] \<and> distinct (map fst md)"
    by blast
  with f e r show ?thesis by (intro conjI)
qed

lemma control_device_example:
  "label_nounphrases ends_with regexp_parse
     [(''the'', ''DT''), (''control'', ''NN''), (''device'', ''NN''), (''drives'', ''VBZ''),
      (''the'', ''DT''), (''device'', ''NN'')]
   = Inr ([(''the'', ''DT'', Some 1), (''control'', ''NN'', Some 1), (''device'', ''NN'', Some 1),
           (''drives'', ''VBZ'', None),
           (''the'', ''DT'', Some 1), (''device'', ''NN'', Some 1)],
          [(''control device'', 1)])"
  by code_simp

text \<open>
  Claim C4. On a mapping as the loop builds it, a canonical string that is a key takes the
  identifier of that key; otherwise, if it is a suffix match of some key, it takes the identifier
  of the first such key and the mapping is unchanged; otherwise it gets the size of the mapping
  plus one and is added as a new key. The first identifier is 1. The mentions
  "the control device" and "the device" of one claim get the same identifier.
\<close>

theorem resolve_np_identity:
  assumes "valid_mapping m"
  shows "(\<forall>v. map_of m s = Some v \<longrightarrow> resolve_np ew m s = Inr (v, m)) \<and>
         (\<forall>k ks. map_of m s = None \<and> filter (ew s) (map fst m) = k # ks \<longrightarrow>
            (\<exists>v. map_of m k = Some v \<and> resolve_np ew m s = Inr (v, m))) \<and>
         (map_of m s = None \<and> filter (ew s) (map fst m) = [] \<longrightarrow>
            resolve_np ew m s = Inr (length m + 1, m @ [(s, length m + 1)])) \<and>
         resolve_np ew [] s = Inr (1, [(s, 1)]) \<and>
         ends_with ''device'' ''control device'' \<and>
         label_nounphrases ends_with regexp_parse
           [(''the'', ''DT''), (''control'', ''NN''), (''device'', ''NN''), (''drives'', ''VBZ''),
            (''the'', ''DT''), (''device'', ''NN'')]
         = Inr ([(''the'', ''DT'', Some 1), (''control'', ''NN'', Some 1), (''device'', ''NN'', Some 1),
                 (''drives'', ''VBZ'', None),
                 (''the'', ''DT'', Some 1), (''device'', ''NN'', Some 1)],
                [(''control device'', 1)])"
proof -
  have a: "\<forall>v. map_of m s = Some v \<longrightarrow> resolve_np ew m s = Inr (v, m)"
  proof (intro allI impI)
    fix v assume v: "map_of m s = Some v"
    with assms have "\<not> falsy (dict_get m s)" by (simp add: valid_mapping_falsy)
    with v show "resolve_np ew m s = Inr (v, m)" by (simp add: resolve_np_def dict_get_def)
  qed
  have b: "\<forall>k ks. map_of m s = None \<and> filter (ew s) (map fst m) = k # ks \<longrightarrow>
            (\<exists>v. map_of m k = Some v \<and> resolve_np ew m s = Inr (v, m))"
  proof (intro allI impI, elim conjE)
    fix k ks assume n: "map_of m s = None" and f: "filter (ew s) (map fst m) = k # ks"
    from n assms have fa: "falsy (dict_get m s)" by (simp add: valid_mapping_falsy)
    from f have "k \<in> set (filter (ew s) (map fst m))" by simp
    then have "k \<in> set (map fst m)" by simp
    from map_of_key[OF this] obtain v where v: "map_of m k = Some v" ..
    with fa f have "resolve_np ew m s = Inr (v, m)"
      by (simp add: resolve_np_def Let_def dict_get_def)
    with v show "\<exists>v. map_of m k = Some v \<and> resolve_np ew m s = Inr (v, m)" by simp
  qed
  have c: "map_of m s = None \<and> filter (ew s) (map fst m) = [] \<longrightarrow>
            resolve_np ew m s = Inr (length m + 1, m @ [(s, length m + 1)])"
  proof (intro impI, elim conjE)
    assume n: "map_of m s = None" and f: "filter (ew s) (map fst m) = []"
    from n assms have fa: "falsy (dict_get m s)" by (simp add: valid_mapping_falsy)
    with f show "resolve_np ew m s = Inr (length m + 1, m @ [(s, length m + 1)])"
      by (simp add: resolve_np_def Let_def)
  qed
  have d: "resolve_np ew [] s = Inr (1, [(s, 1)])"
    by (simp add: resolve_np_def Let_def falsy_def dict_get_def)
  have e: "ends_with ''device'' ''control device''" by (simp add: ends_with_def)
  from a b c d e control_device_example show ?thesis by (intro conjI)
qed

theorem resolve_np_identity_witness:
  "valid_mapping [(''control device'', 1)] \<and>
   map_of [(''control device'', 1::nat)] ''device'' = None \<and>
   filter (ends_with ''device'') (map fst [(''control device'', 1::nat)]) = [''control device''] \<and>
   (\<exists>v. map_of [(''control device'', 1::nat)] ''control device'' = Some v \<and>
        resolve_np ends_with [(''control device'', 1)] ''device'' = Inr (v, [(''control device'', 1)]))"
proof -
  let ?m = "[(''control device'', 1::nat)]"
  have v: "valid_mapping ?m" by (simp add: valid_mapping_def)
  have n: "map_of ?m ''device'' = None" by simp
  have f: "filter (ends_with ''device'') (map fst ?m) = [''control device'']"
    by (simp add: ends_with_def)
  from resolve_np_identity[OF v, of "''device''" ends_with] n f
  have "\<exists>v. map_of ?m ''control device'' = Some v \<and>
        resolve_np ends_with ?m ''device'' = Inr (v, ?m)"
    by blast
  with v n f show ?thesis by (intro conjI)
qed

section \<open>Canonical strings, tagging and construction\<close>

lemma np_string_of_only_DT:
  "np_string_of ls = py_join '' '' (map fst (filter (\<lambda>leaf. snd leaf \<noteq> ''DT'') ls))"
  by (simp add: np_string_of_def py_or_def)

text \<open>
  Claim C1 fails on the code. The filter compares each tag with the value of the Python
  expression \<open>("DT" or "PRP$")\<close>, which is \<open>"DT"\<close>: a possessive pronoun stays in the
  canonical string. For the tagged tokens \<open>its/PRP$ sensor/NN\<close> the canonical string is
  \<open>its sensor\<close>, where the claim asks for \<open>sensor\<close>.
\<close>

theorem np_string_of_keeps_possessive:
  "regexp_parse [(''its'', ''PRP$''), (''sensor'', ''NN'')]
     = [NP [(''its'', ''PRP$''), (''sensor'', ''NN'')]] \<and>
   np_string_of [(''its'', ''PRP$''), (''sensor'', ''NN'')] = ''its sensor'' \<and>
   label_nounphrases ends_with regexp_parse [(''its'', ''PRP$''), (''sensor'', ''NN'')]
     = Inr ([(''its'', ''PRP$'', Some 1), (''sensor'', ''NN'', Some 1)], [(''its sensor'', 1)])"
  by code_simp

lemma set_pos_comprising:
  "(w, t) \<in> set (set_pos pos_tag ws) \<Longrightarrow> w = ''comprising'' \<Longrightarrow> t = ''VBG''"
  by (auto simp: set_pos_def split: if_splits)

text \<open>
  Claim C2 fails on \<open>Claim.get_pos\<close>, which returns the tagger's answer as it is, while
  \<open>BaseTextBlock.set_pos\<close> forces the tag of the word \<open>comprising\<close>. With a tagger that
  answers \<open>NN\<close> for every word, the claim object records \<open>comprising/NN\<close>.
\<close>

theorem get_pos_no_override:
  "get_pos (map (\<lambda>w. (w, ''NN''))) [''a'', ''device'', ''comprising'', ''a'', ''sensor'']
     = [(''a'', ''NN''), (''device'', ''NN''), (''comprising'', ''NN''), (''a'', ''NN''),
        (''sensor'', ''NN'')] \<and>
   set_pos (map (\<lambda>w. (w, ''NN''))) [''a'', ''device'', ''comprising'', ''a'', ''sensor'']
     = [(''a'', ''NN''), (''device'', ''NN''), (''comprising'', ''VBG''), (''a'', ''NN''),
        (''sensor'', ''NN'')] \<and>
   (case init (\<lambda>t. [''a'', ''device'', ''comprising'', ''a'', ''sensor''])
              (map (\<lambda>w. (w, ''NN''))) regexp_parse ends_with
              ''a device comprising a sensor'' None None of
      Inl e \<Rightarrow> False
    | Inr (c, out) \<Rightarrow> (''comprising'', ''NN'') \<in> set (pos c) \<and> (''comprising'', ''VBG'') \<notin> set (pos c))"
  by code_simp


lemma init_supplied_dependency:
  assumes "d \<noteq> 0" and "init tok tag cp ew tx n (Some d) = Inr (c, out)"
  shows "dependency c = d \<and>
         (detect_dependency (snd (get_number tx)) \<noteq> Inr d \<longrightarrow>
            ''Warning: detected dependency does not equal passed dependency.'' \<in> set out)"
  using assms
  by (auto simp: init_def Let_def split: prod.splits sum.splits option.splits if_splits)

text \<open>
  Claim C7 fails on the code for a supplied dependency of 0. The constructor tests the supplied
  value for truth, so 0 counts as not supplied: the parsed dependency 1 is stored and no warning
  is printed, whatever the tokenizer, the tagger, the chunk parser and the suffix test are.
\<close>

theorem init_dependency_zero_ignored:
  "\<exists>c. init tok tag cp ew
          ''2. The system of claim 1, wherein the device comprises a sensor.'' None (Some 0)
        = Inr (c, []) \<and> number c = Some 2 \<and> dependency c = 1"
proof -
  have gn: "get_number ''2. The system of claim 1, wherein the device comprises a sensor.''
      = (Some 2, ''The system of claim 1, wherein the device comprises a sensor.'')"
    by code_simp
  have dd: "detect_dependency ''The system of claim 1, wherein the device comprises a sensor.''
      = Inr 1"
    by code_simp
  from label_nounphrases_result[of ew cp
      "get_pos tag (tok ''The system of claim 1, wherein the device comprises a sensor.'')"]
  obtain wd md where ln: "label_nounphrases ew cp
      (get_pos tag (tok ''The system of claim 1, wherein the device comprises a sensor.''))
      = Inr (wd, md)"
    by blast
  show ?thesis
    by (simp add: init_def gn dd ln Let_def)
qed

section \<open>Claim numbers\<close>

lemma rmatch_Star_Cls_Nil: "rmatch (Star (Cls K)) [] = [[]]"
  by (subst rmatch_Star) simp

lemma rmatch_Star_Cls_Cons:
  "rmatch (Star (Cls K)) (x # xs) =
     (if in_class K x then rmatch (Star (Cls K)) xs else []) @ [x # xs]"
  by (subst rmatch_Star) simp

lemma star_cls_split:
  "s2 \<in> set (rmatch (Star (Cls K)) s1) \<Longrightarrow> \<exists>ds. s1 = ds @ s2 \<and> (\<forall>c \<in> set ds. in_class K c)"
proof (induction s1)
  case Nil
  then show ?case by (simp add: rmatch_Star_Cls_Nil)
next
  case (Cons x xs)
  from Cons.prems consider "s2 = x # xs" | "in_class K x" "s2 \<in> set (rmatch (Star (Cls K)) xs)"
    by (auto simp: rmatch_Star_Cls_Cons split: if_splits)
  then show ?case
  proof cases
    case 1
    then show ?thesis by simp
  next
    case 2
    from Cons.IH[OF 2(2)] obtain ds where "xs = ds @ s2" "\<forall>c \<in> set ds. in_class K c" by blast
    with 2(1) have "x # xs = (x # ds) @ s2 \<and> (\<forall>c \<in> set (x # ds). in_class K c)" by simp
    then show ?thesis by blast
  qed
qed

lemma not_digit_dot: "\<not> py_isdigit CHR ''.''"
  by (simp add: py_isdigit_def)

lemma digits_then_dot:
  "\<forall>c \<in> set ds. py_isdigit c \<Longrightarrow>
   concat (map (rmatch (Lit CHR ''.'')) (rmatch (Star (Cls Digit)) (ds @ CHR ''.'' # rest))) = [rest]"
proof (induction ds)
  case Nil
  then show ?case by (simp add: rmatch_Star_Cls_Cons not_digit_dot)
next
  case (Cons d ds)
  then have d: "py_isdigit d" and "d \<noteq> CHR ''.''" using not_digit_dot by auto
  with Cons show ?case by (simp add: rmatch_Star_Cls_Cons)
qed

lemma number_re_match:
  assumes "ds \<noteq> []" and "\<forall>c \<in> set ds. py_isdigit c"
  shows "rmatch number_re (ds @ CHR ''.'' # rest) = [rest]"
proof -
  from assms(1) obtain d ds' where ds: "ds = d # ds'" by (cases ds) auto
  with assms(2) have d: "py_isdigit d" and r: "\<forall>c \<in> set ds'. py_isdigit c" by auto
  from digits_then_dot[OF r, of rest] d show ?thesis
    by (simp add: number_re_def Plus_def ds)
qed

lemma number_re_shape:
  assumes "r \<in> set (rmatch number_re s)"
  shows "\<exists>ds. ds \<noteq> [] \<and> (\<forall>c \<in> set ds. py_isdigit c) \<and> s = ds @ CHR ''.'' # r"
proof -
  from assms obtain s1 s2 where s1: "s1 \<in> set (rmatch (Cls Digit) s)"
    and s2: "s2 \<in> set (rmatch (Star (Cls Digit)) s1)"
    and r: "r \<in> set (rmatch (Lit CHR ''.'') s2)"
    by (auto simp: number_re_def Plus_def)
  from s1 obtain d where d: "s = d # s1" "py_isdigit d"
    by (cases s) (auto split: if_splits)
  from star_cls_split[OF s2] obtain ds where ds: "s1 = ds @ s2" "\<forall>c \<in> set ds. py_isdigit c"
    by auto
  from r have "s2 = CHR ''.'' # r" by (cases s2) (auto split: if_splits)
  with d ds have "d # ds \<noteq> [] \<and> (\<forall>c \<in> set (d # ds). py_isdigit c) \<and> s = (d # ds) @ CHR ''.'' # r"
    by simp
  then show ?thesis by blast
qed

lemma search_from_hit:
  "rmatch r s = rest # rs \<Longrightarrow> search_from r i s = Some (i, i + (length s - length rest))"
  by (simp add: search_from.simps[of r i s])

lemma search_from_None:
  "(\<forall>k \<le> length s. rmatch r (drop k s) = []) \<Longrightarrow> search_from r i s = None"
proof (induction s arbitrary: i)
  case Nil
  then show ?case by (simp add: search_from.simps[of r i "[]"])
next
  case (Cons x xs)
  from Cons.prems have here: "rmatch r (x # xs) = []" by (auto dest: spec[of _ 0])
  have "\<forall>k \<le> length xs. rmatch r (drop k xs) = []"
  proof (intro allI impI)
    fix k assume "k \<le> length xs"
    with Cons.prems have "rmatch r (drop (Suc k) (x # xs)) = []" by (auto dest!: spec[of _ "Suc k"])
    then show "rmatch r (drop k xs) = []" by simp
  qed
  from Cons.IH[OF this] here show ?case by (simp add: search_from.simps[of r i "x # xs"])
qed

lemma py_int_snoc: "py_int (ds @ [c]) = 10 * py_int ds + digit_val c"
  by (simp add: py_int_def)

lemma digit_char_props:
  assumes "k < 10"
  shows "py_isdigit (digit_char k)" and "digit_val (digit_char k) = int k"
proof -
  from assms have k: "k \<in> {0, 1, 2, 3, 4, 5, 6, 7, 8, 9}" by auto
  then show "py_isdigit (digit_char k)"
    by (auto simp: digit_char_def py_isdigit_def)
  from k show "digit_val (digit_char k) = int k"
    by (auto simp: digit_char_def digit_val_def)
qed

lemma decimal_props:
  "decimal n \<noteq> [] \<and> (\<forall>c \<in> set (decimal n). py_isdigit c) \<and> py_int (decimal n) = int n"
proof (induction n rule: decimal.induct)
  case (1 n)
  show ?case
  proof (cases "n < 10")
    case True
    then have u: "decimal n = [digit_char n]" by (subst decimal.simps) simp
    from True show ?thesis
      unfolding u by (simp add: digit_char_props py_int_def)
  next
    case False
    then have u: "decimal n = decimal (n div 10) @ [digit_char (n mod 10)]"
      by (subst decimal.simps) simp
    have m: "n mod 10 < 10" by simp
    have "10 * int (n div 10) + int (n mod 10) = int n"
      by (metis mult_div_mod_eq of_nat_add of_nat_mult of_nat_numeral)
    with "1.IH"[OF False] digit_char_props[OF m] show ?thesis
      unfolding u by (simp add: py_int_snoc)
  qed
qed

text \<open>
  Claim C5. For a claim text that begins with the decimal numeral of a positive integer
  followed by a period, \<open>get_number\<close> returns that integer and the rest of the text after the
  period, stripped of leading and trailing whitespace; the same holds for any non-empty run of
  digits at the start, read as a decimal number. For a text in which no digit is directly
  followed by a period, the number is unset and the text is returned unchanged.
\<close>

theorem get_number_spec:
  "(0 < n \<longrightarrow> get_number (decimal n @ ''.'' @ rest) = (Some (int n), py_strip rest)) \<and>
   (ds \<noteq> [] \<and> (\<forall>c \<in> set ds. py_isdigit c) \<longrightarrow>
      get_number (ds @ ''.'' @ rest) = (Some (py_int ds), py_strip rest)) \<and>
   ((\<forall>p d q. tx = p @ d # CHR ''.'' # q \<longrightarrow> \<not> py_isdigit d) \<longrightarrow> get_number tx = (None, tx))"
proof -
  have A: "get_number (ds @ ''.'' @ rest) = (Some (py_int ds), py_strip rest)"
    if "ds \<noteq> []" and "\<forall>c \<in> set ds. py_isdigit c" for ds
  proof -
    from number_re_match[OF that, of rest]
    have "rmatch number_re (ds @ CHR ''.'' # rest) = rest # []" .
    from search_from_hit[OF this, of 0]
    have "re_search number_re (ds @ CHR ''.'' # rest) = Some (0, Suc (length ds))"
      by (simp add: re_search_def)
    then show ?thesis
      by (simp add: get_number_def py_slice_def butlast_append)
  qed
  have B: "get_number tx = (None, tx)"
    if no: "\<forall>p d q. tx = p @ d # CHR ''.'' # q \<longrightarrow> \<not> py_isdigit d"
  proof -
    have "\<forall>k \<le> length tx. rmatch number_re (drop k tx) = []"
    proof (intro allI impI, rule ccontr)
      fix k assume "k \<le> length tx" and "rmatch number_re (drop k tx) \<noteq> []"
      then obtain r where "r \<in> set (rmatch number_re (drop k tx))"
        by (cases "rmatch number_re (drop k tx)") auto
      from number_re_shape[OF this] obtain ds where ds: "ds \<noteq> []" "\<forall>c \<in> set ds. py_isdigit c"
        and eq: "drop k tx = ds @ CHR ''.'' # r" by blast
      have "tx = take k tx @ drop k tx" by simp
      also have "\<dots> = (take k tx @ butlast ds) @ last ds # CHR ''.'' # r"
        using eq ds(1) by simp
      finally have "tx = (take k tx @ butlast ds) @ last ds # CHR ''.'' # r" .
      with no have "\<not> py_isdigit (last ds)" by blast
      with ds show False by simp
    qed
    from search_from_None[OF this] show ?thesis
      by (simp add: get_number_def re_search_def)
  qed
  from decimal_props[of n] A[of "decimal n"]
  have C: "get_number (decimal n @ ''.'' @ rest) = (Some (int n), py_strip rest)" by simp
  from A B C show ?thesis by blast
qed

theorem get_number_spec_witness:
  "(0::nat) < 12 \<and> decimal 12 = ''12'' \<and>
   get_number (decimal 12 @ ''.'' @ '' A device. '') = (Some 12, ''A device.'') \<and>
   list_all py_isdigit ''007'' \<and>
   get_number (''007'' @ ''.'' @ '' A device. '') = (Some 7, ''A device.'') \<and>
   \<not> (\<exists>p d q. ''A device'' = p @ d # CHR ''.'' # q \<and> py_isdigit d) \<and>
   get_number ''A device'' = (None, ''A device'')"
proof -
  note T = get_number_spec[where n = 12 and rest = "'' A device. ''" and ds = "''007''"
      and tx = "''A device''"]
  have d: "decimal 12 = ''12''" by code_simp
  have s: "py_strip '' A device. '' = ''A device.''" by code_simp
  have i7: "py_int ''007'' = 7" by code_simp
  have dg: "\<forall>c \<in> set ''007''. py_isdigit c" by code_simp
  have no: "\<forall>p d q. ''A device'' = p @ d # CHR ''.'' # q \<longrightarrow> \<not> py_isdigit d"
  proof (intro allI impI)
    fix p d q assume eq: "''A device'' = p @ d # CHR ''.'' # q"
    have "CHR ''.'' \<in> set (p @ d # CHR ''.'' # q)" by simp
    then have "CHR ''.'' \<in> set ''A device''" unfolding eq[symmetric] .
    then show "\<not> py_isdigit d" by simp
  qed
  have c1: "get_number (decimal 12 @ ''.'' @ '' A device. '') = (Some 12, ''A device.'')"
    using T[THEN conjunct1] s by simp
  have c2: "get_number (''007'' @ ''.'' @ '' A device. '') = (Some 7, ''A device.'')"
    using mp[OF T[THEN conjunct2, THEN conjunct1]] dg s i7 by simp
  have c3: "get_number ''A device'' = (None, ''A device'')"
    by (rule mp[OF T[THEN conjunct2, THEN conjunct2] no])
  have z: "(0::nat) < 12" by simp
  from dg have dg': "list_all py_isdigit ''007''" by (simp only: list_all_iff)
  from no have no': "\<not> (\<exists>p d q. ''A device'' = p @ d # CHR ''.'' # q \<and> py_isdigit d)"
    by blast
  from z d c1 dg' c2 no' c3 show ?thesis by (intro conjI)
qed

section \<open>Dependency detection\<close>

lemma space_not_prep:
  "py_isspace w \<Longrightarrow> w \<noteq> CHR ''o'' \<and> w \<noteq> CHR ''t'' \<and> w \<noteq> CHR ''w'' \<and> w \<noteq> CHR ''i'' \<and> \<not> py_isdigit w"
  by (auto simp: py_isspace_def py_isdigit_def)

lemma space_is_space: "py_isspace CHR '' ''"
  by (simp add: py_isspace_def)

lemma dep_match_list:
  assumes "py_isspace w" and "prep \<in> set ['''', ''of'', ''to'', ''with'', ''in'']"
  shows "rmatch dependency_re (prep @ w # ''claims 2 to 5'' @ post) =
           concat (map (rmatch (Opt (seqs [Lit CHR '','', Cls Space, Str ''wherein''])))
                       (rmatch (Star (Cls Digit)) post))
           @ ['' to 5'' @ post]"
proof -
  from assms(2) consider "prep = ''''" | "prep = ''of''" | "prep = ''to''" | "prep = ''with''"
    | "prep = ''in''" by auto
  then show ?thesis
  proof cases
    case 1
    with assms(1) space_not_prep[OF assms(1)] show ?thesis
      by (simp add: dependency_re_def Plus_def py_isdigit_def rmatch_Star_Cls_Cons space_is_space)
  next
    case 2
    with assms(1) space_not_prep[OF assms(1)] show ?thesis
      by (simp add: dependency_re_def Plus_def py_isdigit_def rmatch_Star_Cls_Cons space_is_space)
  next
    case 3
    with assms(1) space_not_prep[OF assms(1)] show ?thesis
      by (simp add: dependency_re_def Plus_def py_isdigit_def rmatch_Star_Cls_Cons space_is_space)
  next
    case 4
    with assms(1) space_not_prep[OF assms(1)] show ?thesis
      by (simp add: dependency_re_def Plus_def py_isdigit_def rmatch_Star_Cls_Cons space_is_space)
  next
    case 5
    with assms(1) space_not_prep[OF assms(1)] show ?thesis
      by (simp add: dependency_re_def Plus_def py_isdigit_def rmatch_Star_Cls_Cons space_is_space)
  qed
qed

lemma dep_match_shape:
  assumes "py_isspace w" and "prep \<in> set ['''', ''of'', ''to'', ''with'', ''in'']"
  shows "\<exists>r rs. rmatch dependency_re (prep @ w # ''claims 2 to 5'' @ post) = r # rs \<and>
                suffix r ('' to 5'' @ post)"
proof -
  let ?wh = "Opt (seqs [Lit CHR '','', Cls Space, Str ''wherein''])"
  let ?L = "concat (map (rmatch ?wh) (rmatch (Star (Cls Digit)) post))"
  let ?X = "'' to 5'' @ post"
  note E = dep_match_list[OF assms, of post]
  have all: "suffix r ?X" if "r \<in> set (?L @ [?X])" for r
  proof (cases "r = ?X")
    case True
    then show ?thesis by simp
  next
    case False
    with that obtain y where y: "y \<in> set (rmatch (Star (Cls Digit)) post)"
      and r: "r \<in> set (rmatch ?wh y)" by auto
    from rmatch_suffix[OF r] rmatch_suffix[OF y] have "suffix r post"
      by (rule suffix_order.trans)
    then show ?thesis by (rule suffix_appendI)
  qed
  obtain r rs where rr: "?L @ [?X] = r # rs" by (cases "?L @ [?X]") auto
  then have "r \<in> set (?L @ [?X])" by simp
  from all[OF this] rr E show ?thesis by simp
qed

lemma search_from_skip:
  "(\<forall>k < length pre. rmatch r (drop k (pre @ s)) = []) \<Longrightarrow>
   search_from r i (pre @ s) = search_from r (i + length pre) s"
proof (induction pre arbitrary: i)
  case Nil
  then show ?case by simp
next
  case (Cons x xs)
  from Cons.prems have here: "rmatch r (x # xs @ s) = []" by (auto dest: spec[of _ 0])
  have "\<forall>k < length xs. rmatch r (drop k (xs @ s)) = []"
  proof (intro allI impI)
    fix k assume "k < length xs"
    with Cons.prems have "rmatch r (drop (Suc k) ((x # xs) @ s)) = []"
      by (auto dest!: spec[of _ "Suc k"])
    then show "rmatch r (drop k (xs @ s)) = []" by simp
  qed
  from Cons.IH[OF this, of "Suc i"] here show ?case
    by (simp add: search_from.simps[of r i "x # xs @ s"])
qed

lemma num_re_nondigit: "\<not> py_isdigit c \<Longrightarrow> rmatch num_re (c # s) = []"
  by (simp add: num_re_def Plus_def)

lemma first_digit_two:
  assumes "\<forall>c \<in> set p. \<not> py_isdigit c" and "m = [] \<or> \<not> py_isdigit (hd m)"
  shows "re_search num_re (p @ CHR ''2'' # m) = Some (length p, Suc (length p))"
proof -
  have skip: "\<forall>k < length p. rmatch num_re (drop k (p @ CHR ''2'' # m)) = []"
  proof (intro allI impI)
    fix k assume k: "k < length p"
    then have "drop k p = p ! k # drop (Suc k) p" by (simp add: Cons_nth_drop_Suc)
    moreover from k assms(1) have "\<not> py_isdigit (p ! k)" by simp
    ultimately show "rmatch num_re (drop k (p @ CHR ''2'' # m)) = []"
      using k by (simp add: num_re_nondigit)
  qed
  have "rmatch (Star (Cls Digit)) m = [m]"
    using assms(2) by (cases m) (auto simp: rmatch_Star_Cls_Nil rmatch_Star_Cls_Cons)
  then have "rmatch num_re (CHR ''2'' # m) = m # []"
    by (simp add: num_re_def Plus_def py_isdigit_def)
  from search_from_hit[OF this, of "0 + length p"] search_from_skip[OF skip, of 0]
  show ?thesis by (simp add: re_search_def)
qed

lemma search_from_found:
  "k \<le> length s \<Longrightarrow> rmatch r (drop k s) \<noteq> [] \<Longrightarrow> search_from r i s \<noteq> None"
proof (induction s arbitrary: i k)
  case Nil
  then show ?case by (auto simp: search_from.simps[of r i "[]"] split: list.splits)
next
  case (Cons x xs)
  show ?case
  proof (cases "rmatch r (x # xs)")
    case Nil
    with Cons.prems obtain j where j: "k = Suc j" by (cases k) auto
    with Cons.prems have "j \<le> length xs" "rmatch r (drop j xs) \<noteq> []" by auto
    from Cons.IH[OF this, of "Suc i"] Nil show ?thesis
      by (simp add: search_from.simps[of r i "x # xs"])
  next
    case (Cons a as)
    then show ?thesis by (simp add: search_from.simps[of r i "x # xs"])
  qed
qed

lemma claims_2_to_5:
  assumes w: "py_isspace w" and prep: "prep \<in> set ['''', ''of'', ''to'', ''with'', ''in'']"
    and first: "\<forall>k < length pre.
        rmatch dependency_re (drop k (pre @ prep @ w # ''claims 2 to 5'' @ post)) = []"
  shows "detect_dependency (pre @ prep @ w # ''claims 2 to 5'' @ post) = Inr 2"
proof -
  let ?s0 = "prep @ w # ''claims 2 to 5'' @ post"
  let ?p = "prep @ w # ''claims ''"
  from dep_match_shape[OF w prep, of post]
  obtain r rs where m: "rmatch dependency_re ?s0 = r # rs" and suf: "suffix r ('' to 5'' @ post)"
    by blast
  from suf obtain m' where m': "'' to 5'' @ post = m' @ r" by (auto simp: suffix_def)
  define grp where "grp = ?p @ CHR ''2'' # m'"
  from m' have s0: "?s0 = grp @ r" by (simp add: grp_def)
  have len: "length ?s0 - length r = length grp"
    by (subst s0) simp
  have "search_from dependency_re 0 (pre @ ?s0) = search_from dependency_re (0 + length pre) ?s0"
    using first by (intro search_from_skip) simp
  also have "\<dots> = Some (length pre, length pre + length grp)"
    using search_from_hit[OF m, of "length pre"] len by simp
  finally have srch: "re_search dependency_re (pre @ ?s0)
      = Some (length pre, length pre + length grp)"
    by (simp add: re_search_def)
  have "py_slice (pre @ ?s0) (length pre) (length pre + length grp) = take (length grp) ?s0"
    by (simp add: py_slice_def)
  also have "\<dots> = grp"
    by (subst s0) simp
  finally have slice: "py_slice (pre @ ?s0) (length pre) (length pre + length grp) = grp" .
  have nd: "\<forall>c \<in> set ?p. \<not> py_isdigit c"
    using prep space_not_prep[OF w] by (auto simp: py_isdigit_def)
  have hdm: "m' = [] \<or> \<not> py_isdigit (hd m')"
  proof (cases m')
    case Nil
    then show ?thesis by simp
  next
    case (Cons c cs)
    with m' have "c = CHR '' ''" by simp
    with Cons show ?thesis by (simp add: py_isdigit_def)
  qed
  from first_digit_two[OF nd hdm]
  have num: "re_search num_re grp = Some (length ?p, Suc (length ?p))"
    by (simp only: grp_def)
  have "py_slice grp (length ?p) (Suc (length ?p)) = ''2''"
    unfolding grp_def py_slice_def by simp
  then have two: "py_int (py_slice grp (length ?p) (Suc (length ?p))) = 2"
    by (simp add: py_int_def digit_val_def)
  show ?thesis
    unfolding detect_dependency_def srch
    by (simp only: option.case prod.case Let_def slice num two)
qed

lemma preceding_match:
  "py_isspace w \<Longrightarrow> rmatch preceding_re (w # ''preceding claims'' @ post) \<noteq> []"
  by (simp add: preceding_re_def space_is_space)

text \<open>
  Claim C6, amended. \<open>detect_dependency\<close> returns 2 for every text in which the leftmost
  match of the dependency pattern starts at \<open>claims 2 to 5\<close> preceded by a whitespace
  character and, optionally, by one of the prepositions \<open>of\<close>, \<open>to\<close>, \<open>with\<close>, \<open>in\<close>; it
  returns 1 for every text without a match of the dependency pattern in which
  \<open>preceding claims\<close> follows a whitespace character; and it returns 0 for every text that
  matches neither pattern.
\<close>

theorem detect_dependency_spec:
  "(py_isspace w \<and> prep \<in> set ['''', ''of'', ''to'', ''with'', ''in''] \<and>
    (\<forall>k < length pre.
        rmatch dependency_re (drop k (pre @ prep @ w # ''claims 2 to 5'' @ post)) = [])
    \<longrightarrow> detect_dependency (pre @ prep @ w # ''claims 2 to 5'' @ post) = Inr 2) \<and>
   (py_isspace w \<and> re_search dependency_re (pre @ w # ''preceding claims'' @ post) = None
    \<longrightarrow> detect_dependency (pre @ w # ''preceding claims'' @ post) = Inr 1) \<and>
   (re_search dependency_re tx = None \<and> re_search preceding_re tx = None
    \<longrightarrow> detect_dependency tx = Inr 0)"
proof (intro conjI impI)
  assume "py_isspace w \<and> prep \<in> set ['''', ''of'', ''to'', ''with'', ''in''] \<and>
    (\<forall>k < length pre.
        rmatch dependency_re (drop k (pre @ prep @ w # ''claims 2 to 5'' @ post)) = [])"
  then show "detect_dependency (pre @ prep @ w # ''claims 2 to 5'' @ post) = Inr 2"
    using claims_2_to_5[of w prep pre post] by blast
next
  assume a: "py_isspace w \<and> re_search dependency_re (pre @ w # ''preceding claims'' @ post) = None"
  let ?t = "pre @ w # ''preceding claims'' @ post"
  from a preceding_match[of w post]
  have "rmatch preceding_re (drop (length pre) ?t) \<noteq> []" by simp
  from search_from_found[OF _ this, of 0]
  obtain ab where "re_search preceding_re ?t = Some ab"
    by (auto simp: re_search_def)
  with a show "detect_dependency ?t = Inr 1"
    by (simp add: detect_dependency_def)
next
  assume "re_search dependency_re tx = None \<and> re_search preceding_re tx = None"
  then show "detect_dependency tx = Inr 0"
    by (simp add: detect_dependency_def)
qed

text \<open>
  Claim C6, as stated, fails. Both patterns ask for a whitespace character before the phrase, and
  the search takes the leftmost match: a text that is just \<open>claims 2 to 5\<close> has dependency 0,
  a text that names claim 7 before \<open>claims 2 to 5\<close> has dependency 7, and a text that is just
  \<open>preceding claims\<close> has dependency 0.
\<close>

theorem detect_dependency_claims_counterexample:
  "detect_dependency ''claims 2 to 5'' = Inr 0 \<and>
   detect_dependency ''as in claim 7 or claims 2 to 5'' = Inr 7 \<and>
   re_search dependency_re ''preceding claims'' = None \<and>
   detect_dependency ''preceding claims'' = Inr 0"
  by code_simp

theorem detect_dependency_spec_witness:
  "py_isspace CHR '' '' \<and> ''in'' \<in> set ['''', ''of'', ''to'', ''with'', ''in''] \<and>
   \<not> (\<exists>k. k < length ''as '' \<and>
        rmatch dependency_re (drop k (''as '' @ ''in'' @ CHR '' '' # ''claims 2 to 5'' @ '', wherein'')) \<noteq> []) \<and>
   detect_dependency ''as in claims 2 to 5, wherein'' = Inr 2 \<and>
   re_search dependency_re ''any of the preceding claims, wherein'' = None \<and>
   detect_dependency ''any of the preceding claims, wherein'' = Inr 1 \<and>
   re_search dependency_re ''A device.'' = None \<and> re_search preceding_re ''A device.'' = None \<and>
   detect_dependency ''A device.'' = Inr 0"
proof -
  have sp: "py_isspace CHR '' ''" by (simp add: py_isspace_def)
  have pr: "''in'' \<in> set ['''', ''of'', ''to'', ''with'', ''in'']" by simp
  have fi: "\<forall>k < length ''as ''.
        rmatch dependency_re (drop k (''as '' @ ''in'' @ CHR '' '' # ''claims 2 to 5'' @ '', wherein'')) = []"
  proof (intro allI impI)
    fix k :: nat assume "k < length ''as ''"
    then consider "k = 0" | "k = 1" | "k = 2" by (auto simp: less_Suc_eq)
    then show "rmatch dependency_re
        (drop k (''as '' @ ''in'' @ CHR '' '' # ''claims 2 to 5'' @ '', wherein'')) = []"
    proof cases
      case 1 show ?thesis unfolding 1 by code_simp
    next
      case 2 show ?thesis unfolding 2 by code_simp
    next
      case 3 show ?thesis unfolding 3 by code_simp
    qed
  qed
  have n2: "re_search dependency_re ''any of the preceding claims, wherein'' = None" by code_simp
  have n3: "re_search dependency_re ''A device.'' = None" by code_simp
  have n4: "re_search preceding_re ''A device.'' = None" by code_simp
  note T1 = detect_dependency_spec[where w = "CHR '' ''" and prep = "''in''" and pre = "''as ''"
      and post = "'', wherein''" and tx = "''A device.''"]
  note T2 = detect_dependency_spec[where w = "CHR '' ''" and prep = "''in''"
      and pre = "''any of the''" and post = "'', wherein''" and tx = "''A device.''"]
  have c1: "detect_dependency ''as in claims 2 to 5, wherein'' = Inr 2"
    using mp[OF T1[THEN conjunct1]] sp pr fi by simp
  have c2: "detect_dependency ''any of the preceding claims, wherein'' = Inr 1"
    using mp[OF T2[THEN conjunct2, THEN conjunct1]] sp n2 by simp
  have c3: "detect_dependency ''A device.'' = Inr 0"
    using mp[OF T1[THEN conjunct2, THEN conjunct2]] n3 n4 by simp
  from fi have fi': "\<not> (\<exists>k. k < length ''as '' \<and>
        rmatch dependency_re (drop k (''as '' @ ''in'' @ CHR '' '' # ''claims 2 to 5'' @ '', wherein'')) \<noteq> [])"
    by blast
  from sp pr fi' c1 n2 c2 n3 n4 c3 show ?thesis by (intro conjI)
qed

end
